theory Spec2Isabelle
  imports Complex_Main "HOL-Library.Sublist"
begin

section \<open>Python strings\<close>

text \<open>
  The program is \<^verbatim>\<open>src/llm_box/dataset/math.py\<close>: the answer extraction, normalisation and
  scoring of the MATH dataset. A Python \<^verbatim>\<open>str\<close> is modelled as a \<^typ>\<open>string\<close>, one
  \<^typ>\<open>char\<close> per character, which covers the code points 0 to 255. The backslash cannot be
  written inside a string literal and is \<open>CHR 0x5C\<close>, the double quote is \<open>CHR 0x22\<close>.
\<close>

datatype error = IndexError | ValueError

text \<open>\<^verbatim>\<open>text[i]\<close>: a negative index counts from the end, an index out of range raises.\<close>

definition char_at :: "string \<Rightarrow> int \<Rightarrow> error + char" where
  "char_at text i =
     (if 0 \<le> i \<and> i < int (length text) then Inr (text ! nat i)
      else if i < 0 \<and> - int (length text) \<le> i then Inr (text ! nat (int (length text) + i))
      else Inl IndexError)"

text \<open>\<^verbatim>\<open>text[i:j]\<close>: negative bounds count from the end, all bounds are clipped, and an
  empty range gives the empty string; a slice never raises.\<close>

definition py_slice :: "string \<Rightarrow> int \<Rightarrow> int \<Rightarrow> string" where
  "py_slice text i j =
     (let n = int (length text);
          a = (if i < 0 then max (i + n) 0 else min i n);
          b = (if j < 0 then max (j + n) 0 else min j n)
      in take (nat (b - a)) (drop (nat a) text))"

text \<open>\<^verbatim>\<open>text.find(sub)\<close>: the lowest index at which \<open>sub\<close> starts, or \<open>-1\<close>.\<close>

primrec find_at :: "string \<Rightarrow> nat \<Rightarrow> string \<Rightarrow> int" where
  "find_at sub i [] = (if sub = [] then int i else - 1)"
| "find_at sub i (x # xs) = (if prefix sub (x # xs) then int i else find_at sub (Suc i) xs)"

definition py_find :: "string \<Rightarrow> string \<Rightarrow> int" where
  "py_find text sub = find_at sub 0 text"

text \<open>\<^verbatim>\<open>sub in text\<close>.\<close>

definition py_in :: "string \<Rightarrow> string \<Rightarrow> bool" where
  "py_in sub text = (py_find text sub \<noteq> - 1)"

definition marker :: string where
  "marker = CHR 0x5C # ''boxed{''"

text \<open>
  \<^verbatim>\<open>s.replace(old, new)\<close>: the occurrences of \<open>old\<close> are found from the left and do not
  overlap; the search goes on after the end of each occurrence. With an empty \<open>old\<close>, Python
  puts \<open>new\<close> before every character and at the end.
\<close>

fun replace_from :: "string \<Rightarrow> string \<Rightarrow> string \<Rightarrow> string" where
  "replace_from old new [] = []"
| "replace_from old new (x # xs) =
     (if prefix old (x # xs) then new @ replace_from old new (drop (length old - 1) xs)
      else x # replace_from old new xs)"

definition py_replace :: "string \<Rightarrow> string \<Rightarrow> string \<Rightarrow> string" where
  "py_replace old new s =
     (if old = [] then new @ concat (map (\<lambda>c. c # new) s) else replace_from old new s)"

text \<open>
  \<^verbatim>\<open>s.split(sep)\<close> for a separator that is not empty; both separators of the program
  are constants, so that the \<^verbatim>\<open>ValueError\<close> of an empty separator cannot occur. \<open>acc\<close>
  holds the current piece, reversed. The list always has at least one piece, so that
  \<^verbatim>\<open>[-1]\<close> on it cannot raise.
\<close>

fun split_from :: "string \<Rightarrow> string \<Rightarrow> string \<Rightarrow> string list" where
  "split_from sep acc [] = [rev acc]"
| "split_from sep acc (x # xs) =
     (if prefix sep (x # xs) then rev acc # split_from sep [] (drop (length sep - 1) xs)
      else split_from sep (x # acc) xs)"

text \<open>\<^verbatim>\<open>s.split(sep)[-1]\<close> for a constant separator that is not empty.\<close>

definition split_last :: "string \<Rightarrow> string \<Rightarrow> string" where
  "split_last sep s = last (split_from sep [] s)"

text \<open>
  The character classes, on the code points 0 to 255. \<^verbatim>\<open>str.isspace\<close> holds of the ASCII
  white space, of the separators 28 to 31, of NEL (133) and of the no-break space (160);
  \<^verbatim>\<open>str.isdigit\<close> holds of \<open>0\<close> to \<open>9\<close> and of the superscripts two, three and one (178,
  179, 185); the class \<^verbatim>\<open>\d\<close> of a regular expression holds of \<open>0\<close> to \<open>9\<close> only, and
  \<^verbatim>\<open>.\<close> matches every character but the newline.
\<close>

definition py_isspace :: "char \<Rightarrow> bool" where
  "py_isspace c =
     (let n = (of_char c :: nat)
      in (9 \<le> n \<and> n \<le> 13) \<or> (28 \<le> n \<and> n \<le> 32) \<or> n = 133 \<or> n = 160)"

definition isdigit_char :: "char \<Rightarrow> bool" where
  "isdigit_char c =
     (let n = (of_char c :: nat) in (48 \<le> n \<and> n \<le> 57) \<or> n = 178 \<or> n = 179 \<or> n = 185)"

definition re_digit :: "char \<Rightarrow> bool" where
  "re_digit c = (let n = (of_char c :: nat) in 48 \<le> n \<and> n \<le> 57)"

definition re_dot :: "char \<Rightarrow> bool" where
  "re_dot c = (c \<noteq> CHR ''\<newline>'')"

text \<open>\<^verbatim>\<open>s.isdigit()\<close>: false on the empty string.\<close>

definition py_isdigit :: "string \<Rightarrow> bool" where
  "py_isdigit s = (s \<noteq> [] \<and> list_all isdigit_char s)"

text \<open>\<^verbatim>\<open>s.strip()\<close>.\<close>

definition py_strip :: "string \<Rightarrow> string" where
  "py_strip s = rev (dropWhile py_isspace (rev (dropWhile py_isspace s)))"

section \<open>Regular expressions\<close>

text \<open>
  Each regular expression of the program is a matcher: given the text from the current
  position on, it returns \<^verbatim>\<open>None\<close> when the expression does not match there, and otherwise
  what the caller takes from the match together with the length of the match. No expression
  of the program matches the empty string, so the length is at least 1. \<^verbatim>\<open>re.sub\<close> and
  \<^verbatim>\<open>re.findall\<close> try the positions from the left and go on after the end of a match.
\<close>

fun re_sub :: "(string \<Rightarrow> (string \<times> nat) option) \<Rightarrow> string \<Rightarrow> string" where
  "re_sub m [] = []"
| "re_sub m (x # xs) =
     (case m (x # xs) of
        Some (repl, n) \<Rightarrow> repl @ re_sub m (drop (n - 1) xs)
      | None \<Rightarrow> x # re_sub m xs)"

fun re_findall :: "(string \<Rightarrow> (string \<times> nat) option) \<Rightarrow> string \<Rightarrow> string list" where
  "re_findall m [] = []"
| "re_findall m (x # xs) =
     (case m (x # xs) of
        Some (found, n) \<Rightarrow> found # re_findall m (drop (n - 1) xs)
      | None \<Rightarrow> re_findall m xs)"

text \<open>A character that a lazy \<^verbatim>\<open>.*?\<close> passes on its way to the next \<^verbatim>\<open>$\<close>.\<close>

definition not_dollar :: "char \<Rightarrow> bool" where
  "not_dollar c = (re_dot c \<and> c \<noteq> CHR ''$'')"

definition not_close :: "char \<Rightarrow> bool" where
  "not_close c = (re_dot c \<and> c \<noteq> CHR ''}'')"

text \<open>
  \<^verbatim>\<open>\$(.*?)\$\<close>, for \<^verbatim>\<open>findall\<close>: a dollar sign, the shortest run of characters on one
  line up to the next dollar sign. The result is group 1.
\<close>

definition m_dollar_span :: "string \<Rightarrow> (string \<times> nat) option" where
  "m_dollar_span xs =
     (case xs of
        [] \<Rightarrow> None
      | c # r \<Rightarrow>
          if c = CHR ''$'' then
            (let g = takeWhile not_dollar r
             in case dropWhile not_dollar r of
                  [] \<Rightarrow> None
                | d # _ \<Rightarrow> if d = CHR ''$'' then Some (g, length g + 2) else None)
          else None)"

text \<open>
  \<^verbatim>\<open>(.*?)(\$)(.*?)(\$)(.*)\<close> replaced by \<^verbatim>\<open>$\3$\<close>: group 1 runs to the first dollar sign of
  the line, group 3 to the second, group 5 to the end of the line. When the line has no
  second dollar sign, letting group 1 run over the first one cannot help, and there is no
  match.
\<close>

definition m_dollar_line :: "string \<Rightarrow> (string \<times> nat) option" where
  "m_dollar_line xs =
     (let g1 = takeWhile not_dollar xs
      in case dropWhile not_dollar xs of
           [] \<Rightarrow> None
         | c # r1 \<Rightarrow>
             if c = CHR ''$'' then
               (let g3 = takeWhile not_dollar r1
                in case dropWhile not_dollar r1 of
                     [] \<Rightarrow> None
                   | d # r2 \<Rightarrow>
                       if d = CHR ''$'' then
                         (let g5 = takeWhile re_dot r2
                          in Some (CHR ''$'' # g3 @ ''$'',
                                   length g1 + 1 + length g3 + 1 + length g5))
                       else None)
             else None)"

text \<open>
  \<^verbatim>\<open>(\\text\{)(.*?)(\})\<close> and its siblings, replaced by \<^verbatim>\<open>\2\<close>: the opening \<open>name\<close>, the
  shortest run of characters on one line up to the next closing brace.
\<close>

definition m_unwrap :: "string \<Rightarrow> string \<Rightarrow> (string \<times> nat) option" where
  "m_unwrap name xs =
     (if prefix name xs then
        (let r = drop (length name) xs; g = takeWhile not_close r
         in case dropWhile not_close r of
              [] \<Rightarrow> None
            | c # _ \<Rightarrow> if c = CHR ''}'' then Some (g, length name + length g + 1) else None)
      else None)"

text \<open>
  \<^verbatim>\<open>(\\boxed\{)(.*)(\})\<close> replaced by \<^verbatim>\<open>\2\<close>: the group is greedy, and runs to the last
  closing brace of the line.
\<close>

definition m_boxed :: "string \<Rightarrow> (string \<times> nat) option" where
  "m_boxed xs =
     (if prefix marker xs then
        (let line = takeWhile re_dot (drop (length marker) xs)
         in if CHR ''}'' \<in> set line then
              (let g = rev (tl (dropWhile (\<lambda>c. c \<noteq> CHR ''}'') (rev line)))
               in Some (g, length marker + length g + 1))
            else None)
      else None)"

text \<open>\<^verbatim>\<open>(frac)([^{])(.)\<close> replaced by \<^verbatim>\<open>frac{\2}{\3}\<close>.\<close>

definition m_frac :: "string \<Rightarrow> (string \<times> nat) option" where
  "m_frac xs =
     (if prefix ''frac'' xs then
        (case drop 4 xs of
           a # b # _ \<Rightarrow>
             if a \<noteq> CHR ''{'' \<and> re_dot b then Some (''frac{'' @ [a] @ ''}{'' @ [b] @ ''}'', 6)
             else None
         | _ \<Rightarrow> None)
      else None)"

text \<open>\<^verbatim>\<open>(sqrt)([^{])\<close> replaced by \<^verbatim>\<open>sqrt{\2}\<close>.\<close>

definition m_sqrt :: "string \<Rightarrow> (string \<times> nat) option" where
  "m_sqrt xs =
     (if prefix ''sqrt'' xs then
        (case drop 4 xs of
           a # _ \<Rightarrow> if a \<noteq> CHR ''{'' then Some (''sqrt{'' @ [a] @ ''}'', 5) else None
         | [] \<Rightarrow> None)
      else None)"

text \<open>
  \<^verbatim>\<open>[-+]?\d*\.\d+|\d+\<close>. The first alternative is an optional sign, all the digits that
  follow, a dot and at least one digit; giving back the sign or some of the digits cannot
  make it match, since the dot would then face a sign or a digit. The second alternative,
  tried when the first fails, is a run of digits, with no sign.
\<close>

definition m_decimal :: "string \<Rightarrow> string option" where
  "m_decimal xs =
     (let sg = (case xs of [] \<Rightarrow> [] | c # _ \<Rightarrow> if c = CHR ''-'' \<or> c = CHR ''+'' then [c] else []);
          r0 = drop (length sg) xs;
          ds = takeWhile re_digit r0
      in case dropWhile re_digit r0 of
           [] \<Rightarrow> None
         | c # r1 \<Rightarrow>
             if c = CHR ''.'' \<and> takeWhile re_digit r1 \<noteq> []
             then Some (sg @ ds @ ''.'' @ takeWhile re_digit r1)
             else None)"

definition m_number :: "string \<Rightarrow> (string \<times> nat) option" where
  "m_number xs =
     (case m_decimal xs of
        Some tok \<Rightarrow> Some (tok, length tok)
      | None \<Rightarrow>
          (let ds = takeWhile re_digit xs in if ds \<noteq> [] then Some (ds, length ds) else None))"

section \<open>BraceExtractor: \<^verbatim>\<open>extract_inner_content\<close>\<close>

text \<open>
  The \<^verbatim>\<open>while count > 0 and end < len(text)\<close> loop, on the pair of its two variables. It
  returns the final value of \<^verbatim>\<open>end\<close>; the read \<^verbatim>\<open>text[end]\<close> is the only operation of
  the function that can raise.
\<close>

function scan_braces :: "string \<Rightarrow> int \<Rightarrow> int \<Rightarrow> error + int" where
  "scan_braces text count stop =
     (if count > 0 \<and> stop < int (length text) then
        (case char_at text stop of
           Inl e \<Rightarrow> Inl e
         | Inr c \<Rightarrow>
             scan_braces text
               (if c = CHR ''{'' then count + 1 else if c = CHR ''}'' then count - 1 else count)
               (stop + 1))
      else Inr stop)"
  by pat_completeness auto
termination
  by (relation "measure (\<lambda>(text, count, stop). nat (int (length text) - stop))") auto

declare scan_braces.simps [simp del]

definition extract_inner_content :: "string \<Rightarrow> error + string option" where
  "extract_inner_content text =
     (let start = py_find text marker in
      if start = - 1 then Inr None
      else
        (case scan_braces text 1 (start + 7) of
           Inl e \<Rightarrow> Inl e
         | Inr stop \<Rightarrow> Inr (Some (py_slice text (start + 7) (stop - 1)))))"

text \<open>The nesting depth the scan has after reading \<open>s\<close>, having started at depth 1.\<close>

definition brace_depth :: "string \<Rightarrow> int" where
  "brace_depth s = 1 + int (count_list s CHR ''{'') - int (count_list s CHR ''}'')"

text \<open>The number of characters the loop reads from the rest of the text.\<close>

fun scanned :: "int \<Rightarrow> string \<Rightarrow> nat" where
  "scanned count [] = 0"
| "scanned count (c # cs) =
     (if count > 0 then
        Suc (scanned (if c = CHR ''{'' then count + 1 else if c = CHR ''}'' then count - 1 else count) cs)
      else 0)"

text \<open>
  The strings that this expression can match: a decimal with an optional sign, or a run
  of digits without a sign.
\<close>

definition regex_token :: "string \<Rightarrow> bool" where
  "regex_token tok =
     (let sg = (case tok of [] \<Rightarrow> [] | c # _ \<Rightarrow> if c = CHR ''-'' \<or> c = CHR ''+'' then [c] else []);
          r = drop (length sg) tok;
          ds = takeWhile re_digit r;
          fs = drop (length ds) r
      in (tok \<noteq> [] \<and> list_all re_digit tok) \<or>
         (case fs of [] \<Rightarrow> False | c # f \<Rightarrow> c = CHR ''.'' \<and> f \<noteq> [] \<and> list_all re_digit f))"

section \<open>Normalisation: \<^verbatim>\<open>normalize_final_answer\<close>\<close>

text \<open>The two tables, in the order of the source.\<close>

definition SUBSTITUTIONS :: "(string \<times> string) list" where
  "SUBSTITUTIONS =
     [(''an '', ''''), (''a '', ''''), (''.$'', ''$''), (CHR 0x5C # ''$'', ''''),
      (CHR 0x5C # '' '', ''''), ('' '', ''''), (''mbox'', ''text''),
      ('','' @ CHR 0x5C # ''text{and}'', '',''), (CHR 0x5C # ''text{and}'', '',''),
      (CHR 0x5C # ''text{m}'', CHR 0x5C # ''text{}'')]"

definition REMOVED_EXPRESSIONS :: "string list" where
  "REMOVED_EXPRESSIONS =
     [''square'', ''ways'', ''integers'', ''dollars'', ''mph'', ''inches'', ''ft'',
      ''hours'', ''km'', ''units'', CHR 0x5C # ''ldots'', ''sue'', ''points'', ''feet'',
      ''minutes'', ''digits'', ''cents'', ''degrees'', ''cm'', ''gm'', ''pounds'',
      ''meters'', ''meals'', ''edges'', ''students'', ''childrentickets'', ''multiples'',
      CHR 0x5C # ''text{s}'', CHR 0x5C # ''text{.}'', CHR 0x5C # ''text{\<newline>s}'',
      CHR 0x5C # ''text{}^2'', CHR 0x5C # ''text{}^3'', CHR 0x5C # ''text{\<newline>}'',
      CHR 0x5C # ''text{}'', CHR 0x5C # ''mathrm{th}'',
      CHR ''^'' # CHR 0x5C # ''circ'', ''^{'' @ CHR 0x5C # ''circ}'', [CHR 0x5C, CHR '';''],
      [CHR '','', CHR 0x5C, CHR ''!''], ''{,}'', [CHR 0x22], CHR 0x5C # ''dots'']"

text \<open>
  SubstitutionPipeline: the two \<^verbatim>\<open>for\<close> loops, each rule applied to the result of the rule
  before it.
\<close>

definition substitution_pipeline :: "string \<Rightarrow> string" where
  "substitution_pipeline s =
     fold (\<lambda>expr. py_replace expr []) REMOVED_EXPRESSIONS
       (fold (\<lambda>(before, after). py_replace before after) SUBSTITUTIONS s)"

text \<open>The last two lines before the \<^verbatim>\<open>return\<close>: \<^verbatim>\<open>100,000\<close> becomes \<^verbatim>\<open>100000\<close>.\<close>

definition comma_pass :: "string \<Rightarrow> string" where
  "comma_pass s = (if py_isdigit (py_replace '','' [] s) then py_replace '','' [] s else s)"

text \<open>
  StructuralStripper: the seven \<^verbatim>\<open>re.sub\<close> calls, the removal of the dollar signs and the
  comma pass. The \<^verbatim>\<open>print\<close> after the first \<^verbatim>\<open>re.sub\<close> writes to the console and does not
  change the value; it is left out.
\<close>

definition structural_stripper :: "string \<Rightarrow> string" where
  "structural_stripper s =
     (let s1 = re_sub m_dollar_line s;
          s2 = re_sub (m_unwrap (CHR 0x5C # ''text{'')) s1;
          s3 = re_sub (m_unwrap (CHR 0x5C # ''textbf{'')) s2;
          s4 = re_sub (m_unwrap (CHR 0x5C # ''overline{'')) s3;
          s5 = re_sub m_boxed s4;
          s6 = re_sub m_frac s5;
          s7 = re_sub m_sqrt s6;
          s8 = py_replace ''$'' [] s7
      in comma_pass s8)"

definition normalize_final_answer :: "string \<Rightarrow> string" where
  "normalize_final_answer final_answer =
     structural_stripper (substitution_pipeline (split_last ''='' final_answer))"

section \<open>CandidateLocator and \<^verbatim>\<open>answer_cleansing\<close>\<close>

definition phrase :: string where
  "phrase = ''The answer is ''"

text \<open>The text that the body of the loop works on, after its first \<^verbatim>\<open>if\<close>.\<close>

definition working_text :: "string \<Rightarrow> string" where
  "working_text pred = (if py_in phrase pred then py_strip (split_last phrase pred) else pred)"

text \<open>
  The three branches of the loop body, with the string that each of them selects: the last
  dollar-delimited span, the last numeric token, or the working text itself.
\<close>

datatype candidate = Dollar string | Numeric string | Raw string

definition locate :: "string \<Rightarrow> candidate" where
  "locate pred =
     (let w = working_text pred; final_answer = re_findall m_dollar_span w
      in if final_answer \<noteq> [] then Dollar (last final_answer)
         else
           (let numbers = re_findall m_number w
            in if numbers \<noteq> [] then Numeric (last numbers) else Raw w))"

text \<open>What the loop body appends to \<^verbatim>\<open>predictions\<close>: only the first branch normalises.\<close>

definition cleanse :: "string \<Rightarrow> string" where
  "cleanse pred =
     (case locate pred of
        Dollar c \<Rightarrow> normalize_final_answer c
      | Numeric c \<Rightarrow> c
      | Raw c \<Rightarrow> c)"

definition answer_cleansing :: "string list \<Rightarrow> string list" where
  "answer_cleansing preds = map cleanse preds"

section \<open>Scorer: \<^verbatim>\<open>references\<close> and \<^verbatim>\<open>calculate_metric\<close>\<close>

record item =
  problem :: string
  solution :: string

text \<open>
  The list comprehension of \<^verbatim>\<open>references\<close> over \<^verbatim>\<open>self.evaluation_data\<close>; an exception
  in one element would end the whole comprehension.
\<close>

fun references :: "item list \<Rightarrow> error + string option list" where
  "references [] = Inr []"
| "references (i # is) =
     (case extract_inner_content (solution i) of
        Inl e \<Rightarrow> Inl e
      | Inr r \<Rightarrow> (case references is of Inl e \<Rightarrow> Inl e | Inr rs \<Rightarrow> Inr (r # rs)))"

text \<open>
  \<^verbatim>\<open>np.asarray\<close> of a list of strings is an array of fixed width, in which an element is
  padded with NUL characters and read back without the NUL characters at its end. The
  predictions are always strings. The references make such an array when every one of them
  is a string; as soon as one of them is \<^verbatim>\<open>None\<close>, they make an array of objects, which
  keeps every element as it is.
\<close>

definition np_str :: "string \<Rightarrow> string" where
  "np_str s = rev (dropWhile (\<lambda>c. c = CHR 0x00) (rev s))"

definition str_array :: "string list \<Rightarrow> string list" where
  "str_array ps = map np_str ps"

definition ref_array :: "string option list \<Rightarrow> string option list" where
  "ref_array rs = (if list_all (\<lambda>r. r \<noteq> None) rs then map (map_option np_str) rs else rs)"

text \<open>
  The comparison \<^verbatim>\<open>np.asarray(predictions) == np.asarray(self.references)\<close> of NumPy, in
  the versions from 1.25 on, on two one-dimensional arrays: element by element when the
  lengths agree; an array of length 1 is broadcast against the other one; any other pair of
  lengths raises \<^verbatim>\<open>ValueError\<close>, the shapes having no common broadcast. Two elements are
  equal when they are the same string, and \<^verbatim>\<open>None\<close> equals no string.
\<close>

definition np_equal :: "string list \<Rightarrow> string option list \<Rightarrow> error + bool list" where
  "np_equal ps rs =
     (let a = str_array ps; b = ref_array rs
      in if length a = length b then Inr (map (\<lambda>(p, r). Some p = r) (zip a b))
         else if length a = 1 then Inr (map (\<lambda>r. Some (hd a) = r) b)
         else if length b = 1 then Inr (map (\<lambda>p. Some p = hd b) a)
         else Inl ValueError)"

text \<open>
  \<^verbatim>\<open>np.mean\<close> of an array of truth values: the number of true entries over the number of
  entries, here as a real number in place of the nearest \<^verbatim>\<open>float64\<close>; the mean of the empty
  array is \<^verbatim>\<open>nan\<close> (with a warning), not a number.
\<close>

datatype score = Number real | NaN

definition np_mean :: "bool list \<Rightarrow> score" where
  "np_mean bs =
     (if bs = [] then NaN else Number (real (length (filter (\<lambda>b. b) bs)) / real (length bs)))"

text \<open>The last two lines of \<^verbatim>\<open>calculate_metric\<close>, on the cleansed predictions.\<close>

definition accuracy :: "string list \<Rightarrow> string option list \<Rightarrow> error + score" where
  "accuracy ps rs = (case np_equal ps rs of Inl e \<Rightarrow> Inl e | Inr bs \<Rightarrow> Inr (np_mean bs))"

definition calculate_metric :: "item list \<Rightarrow> string list \<Rightarrow> error + score" where
  "calculate_metric evaluation_data predictions =
     (case references evaluation_data of
        Inl e \<Rightarrow> Inl e
      | Inr rs \<Rightarrow> accuracy (answer_cleansing predictions) rs)"

section \<open>Notions of the specification\<close>

text \<open>
  The references as the specification describes them in its list of outputs: the result
  of BraceExtractor passed through the whole normalisation.
\<close>

definition normalized_references :: "item list \<Rightarrow> error + string option list" where
  "normalized_references evaluation_data =
     (case references evaluation_data of
        Inl e \<Rightarrow> Inl e
      | Inr rs \<Rightarrow> Inr (map (map_option normalize_final_answer) rs))"

text \<open>The index positions at which a prediction and its reference are the same string.\<close>

definition equal_positions :: "string list \<Rightarrow> string option list \<Rightarrow> nat list" where
  "equal_positions ps rs = filter (\<lambda>k. Some (ps ! k) = rs ! k) [0..<length ps]"

text \<open>A string of digits and commas only, a digit being what \<^verbatim>\<open>str.isdigit\<close> accepts.\<close>

definition digits_and_commas :: "string \<Rightarrow> bool" where
  "digits_and_commas s = list_all (\<lambda>c. isdigit_char c \<or> c = CHR '','') s"

text \<open>
  A pure numeric answer is a string of the digits \<open>0\<close> to \<open>9\<close>. A simple bracketed answer is
  a tuple or an interval of numbers: an opening parenthesis or square bracket, then digits,
  signs, dots and commas, then a closing parenthesis or square bracket.
\<close>

definition pure_numeric :: "string \<Rightarrow> bool" where
  "pure_numeric x = list_all re_digit x"

definition simple_bracketed :: "string \<Rightarrow> bool" where
  "simple_bracketed x =
     (case x of
        [] \<Rightarrow> False
      | c # r \<Rightarrow>
          (c = CHR ''('' \<or> c = CHR ''['') \<and> r \<noteq> [] \<and> (last r = CHR '')'' \<or> last r = CHR '']'') \<and>
          list_all (\<lambda>d. re_digit d \<or> d = CHR ''+'' \<or> d = CHR ''-'' \<or> d = CHR ''.'' \<or> d = CHR '','')
            (butlast r))"

text \<open>The characters of such answers, which no rule of the normalisation looks for.\<close>

definition plain_char :: "char \<Rightarrow> bool" where
  "plain_char c = (re_digit c \<or> c \<in> set ''+-.,()[]'')"

text \<open>
  The numeric token in the words of the specification, a signed decimal or integer: an
  optional sign, then either digits, a dot and at least one digit, or at least one digit.
  The sign belongs to the integer as it does to the decimal.
\<close>

definition number_token :: "string \<Rightarrow> bool" where
  "number_token tok =
     (let sg = (case tok of [] \<Rightarrow> [] | c # _ \<Rightarrow> if c = CHR ''-'' \<or> c = CHR ''+'' then [c] else []);
          r = drop (length sg) tok;
          ds = takeWhile re_digit r;
          fs = drop (length ds) r
      in (r \<noteq> [] \<and> list_all re_digit r) \<or>
         (case fs of [] \<Rightarrow> False | c # f \<Rightarrow> c = CHR ''.'' \<and> f \<noteq> [] \<and> list_all re_digit f))"

text \<open>
  The scan for such tokens, to be compared with \<^verbatim>\<open>m_number\<close>: the sign is read first,
  whichever of the two forms follows.
\<close>

definition spec_number_match :: "string \<Rightarrow> (string \<times> nat) option" where
  "spec_number_match xs =
     (let sg = (case xs of [] \<Rightarrow> [] | c # _ \<Rightarrow> if c = CHR ''-'' \<or> c = CHR ''+'' then [c] else []);
          r0 = drop (length sg) xs;
          ds = takeWhile re_digit r0;
          fs = (case dropWhile re_digit r0 of
                  [] \<Rightarrow> []
                | c # r1 \<Rightarrow> if c = CHR ''.'' then takeWhile re_digit r1 else [])
      in if fs \<noteq> [] then Some (sg @ ds @ ''.'' @ fs, length sg + length ds + 1 + length fs)
         else if ds \<noteq> [] then Some (sg @ ds, length sg + length ds)
         else None)"

text \<open>
  A string that does not end in a NUL character, and the positions at which the elements
  of the two arrays agree.
\<close>

definition nul_free :: "string \<Rightarrow> bool" where
  "nul_free s = (s = [] \<or> last s \<noteq> CHR 0x00)"

definition array_equal_positions :: "string list \<Rightarrow> string option list \<Rightarrow> nat list" where
  "array_equal_positions ps rs =
     filter (\<lambda>k. Some (str_array ps ! k) = ref_array rs ! k) [0..<length ps]"

section \<open>Properties of the string primitives and of the brace scan\<close>

lemma char_at_in_range:
  "0 \<le> i \<Longrightarrow> i < int (length t) \<Longrightarrow> char_at t i = Inr (t ! nat i)"
  by (simp add: char_at_def)

lemma scan_braces_scanned:
  "0 \<le> stop \<Longrightarrow> stop \<le> int (length t) \<Longrightarrow>
   scan_braces t count stop = Inr (stop + int (scanned count (drop (nat stop) t)))"
proof (induction t count stop rule: scan_braces.induct)
  case (1 t count stop)
  show ?case
  proof (cases "count > 0 \<and> stop < int (length t)")
    case False
    have "scanned count (drop (nat stop) t) = 0"
    proof (cases "count > 0")
      case True
      with False 1(3) have "drop (nat stop) t = []" by simp
      then show ?thesis by (simp del: drop_eq_Nil)
    next
      case False
      then show ?thesis by (cases "drop (nat stop) t") simp_all
    qed
    then show ?thesis using False by (subst scan_braces.simps) auto
  next
    case True
    let ?c = "t ! nat stop"
    have ca: "char_at t stop = Inr ?c"
      using True 1(2) by (simp add: char_at_in_range)
    have dr: "drop (nat stop) t = ?c # drop (nat (stop + 1)) t"
    proof -
      have "nat stop < length t" using True 1(2) by linarith
      then have "drop (nat stop) t = ?c # drop (Suc (nat stop)) t"
        by (rule Cons_nth_drop_Suc [symmetric])
      moreover have "Suc (nat stop) = nat (stop + 1)" using 1(2) by linarith
      ultimately show ?thesis by simp
    qed
    have ih: "scan_braces t
        (if ?c = CHR ''{'' then count + 1 else if ?c = CHR ''}'' then count - 1 else count) (stop + 1)
      = Inr (stop + 1 + int (scanned
        (if ?c = CHR ''{'' then count + 1 else if ?c = CHR ''}'' then count - 1 else count)
        (drop (nat (stop + 1)) t)))"
      using 1(1)[OF True ca] True 1(2) by simp
    show ?thesis
      using True ca ih by (subst scan_braces.simps) (simp add: dr)
  qed
qed

lemma find_at_range: "find_at sub i xs = - 1 \<or> int i \<le> find_at sub i xs"
  by (induction xs arbitrary: i) (auto, force)

lemma find_at_absent:
  "(find_at sub i xs = - 1) = (\<not> (\<exists>p q. xs = p @ sub @ q))"
proof (induction xs arbitrary: i)
  case Nil
  then show ?case by auto
next
  case (Cons x xs)
  show ?case
  proof (cases "prefix sub (x # xs)")
    case True
    then obtain q where "x # xs = sub @ q" by (auto simp: prefix_def)
    then have "x # xs = [] @ sub @ q" by simp
    then have "\<exists>p q. x # xs = p @ sub @ q" by blast
    then show ?thesis using True by simp
  next
    case False
    have "(\<exists>p q. x # xs = p @ sub @ q) = (\<exists>p q. xs = p @ sub @ q)"
    proof
      assume "\<exists>p q. x # xs = p @ sub @ q"
      then obtain p q where pq: "x # xs = p @ sub @ q" by blast
      show "\<exists>p q. xs = p @ sub @ q"
      proof (cases p)
        case Nil
        with pq False show ?thesis by (auto simp: prefix_def)
      next
        case (Cons a p')
        with pq have "xs = p' @ sub @ q" by simp
        then show ?thesis by blast
      qed
    next
      assume "\<exists>p q. xs = p @ sub @ q"
      then obtain p q where "xs = p @ sub @ q" by blast
      then have "x # xs = (x # p) @ sub @ q" by simp
      then show "\<exists>p q. x # xs = p @ sub @ q" by blast
    qed
    then show ?thesis using False Cons.IH[of "Suc i"] by simp
  qed
qed

lemma find_at_first:
  "xs = p @ sub @ q \<Longrightarrow> \<forall>p' q'. xs = p' @ sub @ q' \<longrightarrow> length p \<le> length p' \<Longrightarrow>
   find_at sub i xs = int (i + length p)"
proof (induction xs arbitrary: i p)
  case Nil
  then show ?case by simp
next
  case (Cons x xs)
  show ?case
  proof (cases "prefix sub (x # xs)")
    case True
    then obtain q' where "x # xs = [] @ sub @ q'" by (auto simp: prefix_def)
    with Cons.prems(2) have "length p \<le> length ([]::string)" by blast
    then show ?thesis using True by simp
  next
    case False
    then obtain a p' where p: "p = a # p'"
      using Cons.prems(1) by (cases p) (auto simp: prefix_def)
    with Cons.prems(1) have xs: "xs = p' @ sub @ q" by simp
    have "\<forall>r q'. xs = r @ sub @ q' \<longrightarrow> length p' \<le> length r"
    proof (intro allI impI)
      fix r q' assume "xs = r @ sub @ q'"
      then have "x # xs = (x # r) @ sub @ q'" by simp
      with Cons.prems(2) have "length p \<le> length (x # r)" by blast
      then show "length p' \<le> length r" using p by simp
    qed
    from Cons.IH[OF xs this, of "Suc i"] show ?thesis using False p by simp
  qed
qed

lemma find_at_found:
  "find_at sub i xs = int (i + k) \<Longrightarrow>
   (\<exists>p q. xs = p @ sub @ q \<and> length p = k) \<and>
   (\<forall>p' q'. xs = p' @ sub @ q' \<longrightarrow> k \<le> length p')"
proof (induction xs arbitrary: i k)
  case Nil
  then show ?case by (auto split: if_splits)
next
  case (Cons x xs)
  show ?case
  proof (cases "prefix sub (x # xs)")
    case True
    with Cons.prems have k: "k = 0" by simp
    from True obtain q where "x # xs = [] @ sub @ q" by (auto simp: prefix_def)
    then show ?thesis using k by force
  next
    case False
    with Cons.prems have f: "find_at sub (Suc i) xs = int (i + k)" by simp
    have "int (Suc i) \<le> find_at sub (Suc i) xs"
      using find_at_range[of sub "Suc i" xs] f by auto
    with f obtain k' where k: "k = Suc k'" by (cases k) auto
    with f have "find_at sub (Suc i) xs = int (Suc i + k')" by simp
    from Cons.IH[OF this] obtain p q where pq: "xs = p @ sub @ q" "length p = k'"
      and mn: "\<forall>p' q'. xs = p' @ sub @ q' \<longrightarrow> k' \<le> length p'" by blast
    have 1: "\<exists>p q. x # xs = p @ sub @ q \<and> length p = k"
      using pq k by (intro exI[of _ "x # p"] exI[of _ q]) simp
    have 2: "\<forall>p' q'. x # xs = p' @ sub @ q' \<longrightarrow> k \<le> length p'"
    proof (intro allI impI)
      fix p' q' assume a: "x # xs = p' @ sub @ q'"
      show "k \<le> length p'"
      proof (cases p')
        case Nil
        with a False show ?thesis by (auto simp: prefix_def)
      next
        case (Cons b r)
        with a have "xs = r @ sub @ q'" by simp
        with mn have "k' \<le> length r" by blast
        then show ?thesis using k Cons by simp
      qed
    qed
    from 1 2 show ?thesis by blast
  qed
qed

lemma scanned_nonpos: "count \<le> 0 \<Longrightarrow> scanned count s = 0"
  by (cases s) simp_all

lemma brace_depth_Cons:
  "brace_depth (c # s) =
     brace_depth s + (if c = CHR ''{'' then 1 else if c = CHR ''}'' then - 1 else 0)"
  by (simp add: brace_depth_def)

lemma scanned_closed:
  "\<forall>n \<le> length body. 0 < d - 1 + brace_depth (take n body) \<Longrightarrow>
   d - 1 + brace_depth body = 1 \<Longrightarrow>
   scanned d (body @ CHR ''}'' # rest) = Suc (length body)"
proof (induction body arbitrary: d)
  case Nil
  then have "d = 1" by (simp add: brace_depth_def)
  then show ?case by (simp add: scanned_nonpos)
next
  case (Cons c cs)
  let ?d = "if c = CHR ''{'' then d + 1 else if c = CHR ''}'' then d - 1 else d"
  from Cons.prems(1) have "0 < d - 1 + brace_depth (take 0 (c # cs))" by blast
  then have pos: "0 < d" by (simp add: brace_depth_def)
  have a: "\<forall>n \<le> length cs. 0 < ?d - 1 + brace_depth (take n cs)"
  proof (intro allI impI)
    fix n assume "n \<le> length cs"
    then have "Suc n \<le> length (c # cs)" by simp
    with Cons.prems(1) have "0 < d - 1 + brace_depth (take (Suc n) (c # cs))" by blast
    then show "0 < ?d - 1 + brace_depth (take n cs)"
      by (simp add: brace_depth_Cons split: if_splits)
  qed
  have b: "?d - 1 + brace_depth cs = 1"
    using Cons.prems(2) by (simp add: brace_depth_Cons split: if_splits)
  from Cons.IH[OF a b] pos show ?case by simp
qed

lemma scanned_open:
  "\<forall>n < length r. 0 < d - 1 + brace_depth (take n r) \<Longrightarrow> scanned d r = length r"
proof (induction r arbitrary: d)
  case Nil
  then show ?case by simp
next
  case (Cons c cs)
  let ?d = "if c = CHR ''{'' then d + 1 else if c = CHR ''}'' then d - 1 else d"
  from Cons.prems have "0 < d - 1 + brace_depth (take 0 (c # cs))" by fastforce
  then have pos: "0 < d" by (simp add: brace_depth_def)
  have a: "\<forall>n < length cs. 0 < ?d - 1 + brace_depth (take n cs)"
  proof (intro allI impI)
    fix n assume "n < length cs"
    then have "Suc n < length (c # cs)" by simp
    with Cons.prems have "0 < d - 1 + brace_depth (take (Suc n) (c # cs))" by blast
    then show "0 < ?d - 1 + brace_depth (take n cs)"
      by (simp add: brace_depth_Cons split: if_splits)
  qed
  from Cons.IH[OF a] pos show ?case by simp
qed

lemma scanned_le: "scanned d r \<le> length r"
  by (induction r arbitrary: d) auto

lemma extract_found:
  assumes t: "t = pre @ marker @ r"
    and f: "py_find t marker = int (length pre)"
  shows "extract_inner_content t = Inr (Some (take (scanned 1 r - 1) r))"
proof -
  let ?k = "int (length pre) + 7"
  have len: "length t = length pre + 7 + length r"
    using t by (simp add: marker_def)
  have dr: "drop (nat ?k) t = r"
  proof -
    have "nat ?k = length (pre @ marker)" by (simp add: marker_def)
    then show ?thesis using t by (metis append.assoc append_eq_conv_conj)
  qed
  have sc: "scan_braces t 1 ?k = Inr (?k + int (scanned 1 r))"
    using scan_braces_scanned[of ?k t 1] len dr by simp
  have sl: "py_slice t ?k (?k + int (scanned 1 r) - 1) = take (scanned 1 r - 1) r"
  proof -
    have "scanned 1 r \<le> length r" by (rule scanned_le)
    then have "py_slice t ?k (?k + int (scanned 1 r) - 1)
        = take (nat (int (scanned 1 r) - 1)) (drop (nat ?k) t)"
      using len by (simp add: py_slice_def Let_def min_def)
    moreover have "nat (int (scanned 1 r) - 1) = scanned 1 r - 1" by linarith
    ultimately show ?thesis using dr by simp
  qed
  show ?thesis
    using f sc sl by (simp add: extract_inner_content_def Let_def)
qed

lemma py_find_first:
  "t = pre @ sub @ r \<Longrightarrow> \<forall>p q. t = p @ sub @ q \<longrightarrow> length pre \<le> length p \<Longrightarrow>
   py_find t sub = int (length pre)"
  using find_at_first[of t pre sub r 0] by (simp add: py_find_def)

lemma py_find_absent: "(py_find t sub = - 1) = (\<not> (\<exists>p q. t = p @ sub @ q))"
  by (simp add: py_find_def find_at_absent)

lemma py_find_found:
  "py_find t sub = int k \<Longrightarrow>
   (\<exists>p q. t = p @ sub @ q \<and> length p = k) \<and> (\<forall>p q. t = p @ sub @ q \<longrightarrow> k \<le> length p)"
  using find_at_found[of sub 0 t k] by (simp add: py_find_def)

lemma py_find_cases:
  "py_find t sub = - 1 \<or> (\<exists>k. py_find t sub = int k)"
  using find_at_range[of sub 0 t] unfolding py_find_def
  by (metis nonneg_int_cases of_nat_0_le_iff order_trans)

lemma all_le_upt: "(\<forall>n \<le> k. P n) = list_all P [0..<Suc k]"
  by (auto simp: list_all_iff less_Suc_eq_le)

lemma first_occurrence_by_find:
  "py_find t sub = int k \<Longrightarrow> \<forall>p q. t = p @ sub @ q \<longrightarrow> k \<le> length p"
  using py_find_found by blast

section \<open>Properties of \<^verbatim>\<open>split\<close> and \<^verbatim>\<open>replace\<close>\<close>

lemma split_from_nonempty: "split_from sep acc xs \<noteq> []"
  by (induction sep acc xs rule: split_from.induct) auto

lemma split_from_absent:
  "\<not> (\<exists>p q. xs = p @ sep @ q) \<Longrightarrow> split_from sep acc xs = [rev acc @ xs]"
proof (induction xs arbitrary: acc)
  case Nil
  then show ?case by simp
next
  case (Cons x xs)
  have np: "\<not> prefix sep (x # xs)"
  proof
    assume "prefix sep (x # xs)"
    then obtain q where "x # xs = [] @ sep @ q" by (auto simp: prefix_def)
    with Cons.prems show False by blast
  qed
  have "\<not> (\<exists>p q. xs = p @ sep @ q)"
  proof
    assume "\<exists>p q. xs = p @ sep @ q"
    then obtain p q where "xs = p @ sep @ q" by blast
    then have "x # xs = (x # p) @ sep @ q" by simp
    with Cons.prems show False by blast
  qed
  from Cons.IH[OF this, of "x # acc"] np show ?case by simp
qed

lemma no_overlap:
  assumes pre: "prefix sep (a @ sep @ b)" and ne: "a \<noteq> []" and ub: "hd sep \<notin> set (tl sep)"
  shows "length sep \<le> length a"
proof (rule ccontr)
  assume "\<not> length sep \<le> length a"
  then have lt: "length a < length sep" by simp
  from pre obtain r where r: "a @ sep @ b = sep @ r" by (auto simp: prefix_def)
  have "sep ! length a = (sep @ r) ! length a" using lt by (simp add: nth_append)
  also have "\<dots> = (a @ sep @ b) ! length a" using r by simp
  also have "\<dots> = sep ! 0" using lt by (cases sep) (simp_all add: nth_append)
  finally have e: "sep ! length a = hd sep" using lt by (cases sep) simp_all
  from ne lt obtain k where k: "length a = Suc k" "k < length (tl sep)"
    by (cases "length a") auto
  then have "sep ! length a = tl sep ! k" by (cases sep) simp_all
  with k have "sep ! length a \<in> set (tl sep)" by (metis nth_mem)
  with e ub show False by simp
qed

lemma split_from_last:
  assumes ub: "hd sep \<notin> set (tl sep)" and ne: "sep \<noteq> []"
    and nb: "\<not> (\<exists>p q. b = p @ sep @ q)"
  shows "last (split_from sep acc (a @ sep @ b)) = b"
proof (induction "length a" arbitrary: a acc rule: less_induct)
  case less
  show ?case
  proof (cases a)
    case Nil
    from ne obtain s0 st where sep: "sep = s0 # st" by (cases sep) auto
    have "split_from sep acc (sep @ b) = rev acc # split_from sep [] b"
      by (simp add: sep)
    then show ?thesis using Nil split_from_absent[OF nb, of "[]"] by simp
  next
    case (Cons x a')
    show ?thesis
    proof (cases "prefix sep (a @ sep @ b)")
      case True
      have le: "length sep \<le> length a"
        using True Cons ub by (intro no_overlap[of sep a b]) simp_all
      with True have "prefix sep a"
        by (metis prefix_append prefix_length_prefix prefix_order.dual_order.refl prefix_order.eq_iff prefix_same_cases)
      then obtain a'' where a'': "a = sep @ a''" by (auto simp: prefix_def)
      have lt: "length a'' < length a" using a'' ne by simp
      have dr: "drop (length sep - 1) (a' @ sep @ b) = a'' @ sep @ b"
      proof -
        have "x # a' @ sep @ b = sep @ a'' @ sep @ b" using Cons a'' by simp
        then have "drop (length sep) (x # a' @ sep @ b) = drop (length sep) (sep @ a'' @ sep @ b)"
          by (rule arg_cong)
        then have "drop (length sep) (x # a' @ sep @ b) = a'' @ sep @ b" by simp
        moreover have "length sep = Suc (length sep - 1)" using ne by (cases sep) simp_all
        ultimately show ?thesis by (metis drop_Suc_Cons)
      qed
      have "split_from sep acc (a @ sep @ b)
          = rev acc # split_from sep [] (drop (length sep - 1) (a' @ sep @ b))"
        using True Cons by (simp del: drop_append)
      then have "split_from sep acc (a @ sep @ b) = rev acc # split_from sep [] (a'' @ sep @ b)"
        by (simp only: dr)
      then show ?thesis
        using less(1)[OF lt, of "[]"] split_from_nonempty[of sep "[]" "a'' @ sep @ b"] by simp
    next
      case False
      then have "split_from sep acc (a @ sep @ b) = split_from sep (x # acc) (a' @ sep @ b)"
        using Cons by simp
      then show ?thesis using less(1)[of a' "x # acc"] Cons by simp
    qed
  qed
qed

lemma occurs_single: "(\<exists>p q. xs = p @ [c] @ q) = (c \<in> set xs)"
  by (metis append_Cons append_Nil in_set_conv_decomp)

lemma split_last_eq_absent: "CHR ''='' \<notin> set s \<Longrightarrow> split_last ''='' s = s"
  using split_from_absent[of s "''=''" "[]"] occurs_single[of s "CHR ''=''"]
  by (simp add: split_last_def)

lemma split_last_eq_after: "CHR ''='' \<notin> set t \<Longrightarrow> split_last ''='' (a @ ''='' @ t) = t"
  using split_from_last[of "''=''" t "[]" a] occurs_single[of t "CHR ''=''"]
  by (simp add: split_last_def)

lemma replace_single: "replace_from [c] [] s = filter (\<lambda>x. x \<noteq> c) s"
  by (induction s) auto

lemma py_replace_comma: "py_replace '','' [] s = filter (\<lambda>x. x \<noteq> CHR '','') s"
  by (simp add: py_replace_def replace_single)

section \<open>Properties of the references and of the score\<close>

lemma extract_total: "\<exists>res. extract_inner_content t = Inr res"
proof (cases "py_find t marker = - 1")
  case True
  then show ?thesis by (simp add: extract_inner_content_def)
next
  case False
  then obtain k where k: "py_find t marker = int k"
    using py_find_cases[of t marker] by blast
  then obtain p q where "t = p @ marker @ q" "length p = k"
    using py_find_found[OF k] by blast
  with k show ?thesis using extract_found[of t p q] by simp
qed

lemma references_total:
  "\<exists>rs. references d = Inr rs \<and> length rs = length d \<and>
        (\<forall>k < length d. extract_inner_content (solution (d ! k)) = Inr (rs ! k))"
proof (induction d)
  case Nil
  then show ?case by simp
next
  case (Cons i d)
  then obtain rs where rs: "references d = Inr rs" "length rs = length d"
    "\<forall>k < length d. extract_inner_content (solution (d ! k)) = Inr (rs ! k)" by blast
  obtain r where r: "extract_inner_content (solution i) = Inr r"
    using extract_total by blast
  have "\<forall>k < length (i # d). extract_inner_content (solution ((i # d) ! k)) = Inr ((r # rs) ! k)"
  proof (intro allI impI)
    fix k assume "k < length (i # d)"
    then show "extract_inner_content (solution ((i # d) ! k)) = Inr ((r # rs) ! k)"
      using r rs(3) by (cases k) simp_all
  qed
  then show ?case using r rs(1,2) by simp
qed

lemma length_answer_cleansing: "length (answer_cleansing ps) = length ps"
  by (simp add: answer_cleansing_def)



lemma length_str_array: "length (str_array ps) = length ps"
  by (simp add: str_array_def)

lemma length_ref_array: "length (ref_array rs) = length rs"
  by (simp add: ref_array_def)

lemma np_str_nul_free: "nul_free s \<Longrightarrow> np_str s = s"
proof (cases "rev s")
  case Nil
  then show ?thesis by (simp add: np_str_def)
next
  case (Cons x xs)
  assume "nul_free s"
  moreover have "last s = x" using Cons by (metis last_rev list.sel(1) rev_rev_ident)
  moreover have "s \<noteq> []" using Cons by auto
  ultimately have "x \<noteq> CHR 0x00" by (simp add: nul_free_def)
  then show ?thesis using Cons by (simp add: np_str_def)
qed

lemma str_array_nul_free: "list_all nul_free ps \<Longrightarrow> str_array ps = ps"
  by (induction ps) (simp_all add: str_array_def np_str_nul_free)

lemma ref_array_nul_free:
  "list_all (\<lambda>r. case r of None \<Rightarrow> True | Some s \<Rightarrow> nul_free s) rs \<Longrightarrow> ref_array rs = rs"
proof -
  assume a: "list_all (\<lambda>r. case r of None \<Rightarrow> True | Some s \<Rightarrow> nul_free s) rs"
  then have "map (map_option np_str) rs = rs"
    by (induction rs) (auto simp: np_str_nul_free split: option.splits)
  then show ?thesis by (simp add: ref_array_def)
qed

lemma zip_as_index:
  "length a = length b \<Longrightarrow> zip a b = map (\<lambda>k. (a ! k, b ! k)) [0..<length a]"
  by (rule nth_equalityI) simp_all

lemma accuracy_equal_length:
  assumes "length ps = length rs" "ps \<noteq> []"
  shows "accuracy ps rs
     = Inr (Number (real (length (array_equal_positions ps rs)) / real (length ps)))"
proof -
  let ?a = "str_array ps" and ?b = "ref_array rs"
  have len: "length ?a = length ?b" "length ?a = length ps"
    using assms(1) by (simp_all add: length_str_array length_ref_array)
  have z: "zip ?a ?b = map (\<lambda>k. (?a ! k, ?b ! k)) [0..<length ps]"
    using zip_as_index[OF len(1)] len(2) by simp
  have "filter (\<lambda>b. b) (map (\<lambda>(p, r). Some p = r) (zip ?a ?b))
      = map (\<lambda>k. True) (array_equal_positions ps rs)"
    unfolding z by (simp add: array_equal_positions_def filter_map comp_def)
  then have c: "length (filter (\<lambda>b. b) (map (\<lambda>(p, r). Some p = r) (zip ?a ?b)))
      = length (array_equal_positions ps rs)" by simp
  have ne: "zip ?a ?b \<noteq> []" using len assms(2) by (cases ?a; cases ?b) auto
  have "np_equal ps rs = Inr (map (\<lambda>(p, r). Some p = r) (zip ?a ?b))"
    using len by (simp add: np_equal_def Let_def)
  then show ?thesis
    using c ne len by (simp add: accuracy_def np_mean_def)
qed

lemma array_equal_positions_le: "length (array_equal_positions ps rs) \<le> length ps"
proof -
  have "length (array_equal_positions ps rs) \<le> length [0..<length ps]"
    unfolding array_equal_positions_def by (rule length_filter_le)
  then show ?thesis by simp
qed

lemma array_positions_exact:
  "list_all nul_free ps \<Longrightarrow>
   list_all (\<lambda>r. case r of None \<Rightarrow> True | Some s \<Rightarrow> nul_free s) rs \<Longrightarrow>
   array_equal_positions ps rs = equal_positions ps rs"
  by (simp add: array_equal_positions_def equal_positions_def str_array_nul_free ref_array_nul_free)

lemma accuracy_mismatch:
  assumes "length ps \<noteq> length rs"
  shows "accuracy ps rs =
     (if length ps = 1 then Inr (np_mean (map (\<lambda>r. Some (np_str (hd ps)) = r) (ref_array rs)))
      else if length rs = 1 then Inr (np_mean (map (\<lambda>p. Some (np_str p) = hd (ref_array rs)) ps))
      else Inl ValueError)"
proof -
  have h: "length ps = 1 \<Longrightarrow> hd (str_array ps) = np_str (hd ps)"
    by (cases ps) (simp_all add: str_array_def)
  have m: "map (\<lambda>p. Some p = hd (ref_array rs)) (str_array ps)
      = map (\<lambda>p. Some (np_str p) = hd (ref_array rs)) ps"
    by (simp add: str_array_def comp_def)
  show ?thesis
    using assms h m
    by (simp add: accuracy_def np_equal_def Let_def length_str_array length_ref_array)
qed

section \<open>Properties of the normalisation\<close>

lemma comma_pass_char:
  "comma_pass s =
     (if digits_and_commas s \<and> list_ex isdigit_char s then filter (\<lambda>c. c \<noteq> CHR '','') s else s)"
proof -
  have nc: "\<not> isdigit_char CHR '',''" by (simp add: isdigit_char_def)
  have a: "list_all isdigit_char (filter (\<lambda>c. c \<noteq> CHR '','') s) = digits_and_commas s"
    by (induction s) (auto simp: digits_and_commas_def)
  have b: "digits_and_commas s \<Longrightarrow> (filter (\<lambda>c. c \<noteq> CHR '','') s \<noteq> []) = list_ex isdigit_char s"
    using nc by (induction s) (auto simp: digits_and_commas_def)
  show ?thesis
    using a b by (auto simp: comma_pass_def py_replace_comma py_isdigit_def)
qed

lemma prefix_list_all: "prefix old s \<Longrightarrow> list_all P s \<Longrightarrow> list_all P old"
  by (auto simp: prefix_def)

lemma replace_from_untouched:
  "list_all P s \<Longrightarrow> \<not> list_all P old \<Longrightarrow> replace_from old new s = s"
proof (induction s)
  case Nil
  then show ?case by simp
next
  case (Cons x xs)
  have "\<not> prefix old (x # xs)"
    using Cons.prems prefix_list_all by blast
  then show ?case using Cons by simp
qed

lemma py_replace_untouched:
  "list_all P s \<Longrightarrow> \<not> list_all P old \<Longrightarrow> py_replace old new s = s"
  using replace_from_untouched[of P s old new] by (auto simp: py_replace_def)

lemma fold_substitutions_untouched:
  "list_all P s \<Longrightarrow> list_all (\<lambda>(b, a). \<not> list_all P b) tbl \<Longrightarrow>
   fold (\<lambda>(before, after). py_replace before after) tbl s = s"
  by (induction tbl) (auto simp: py_replace_untouched)

lemma fold_removed_untouched:
  "list_all P s \<Longrightarrow> list_all (\<lambda>e. \<not> list_all P e) tbl \<Longrightarrow>
   fold (\<lambda>expr. py_replace expr []) tbl s = s"
  by (induction tbl) (auto simp: py_replace_untouched)

lemma substitutions_not_plain: "list_all (\<lambda>(b, a). \<not> list_all plain_char b) SUBSTITUTIONS"
  by code_simp

lemma removed_not_plain: "list_all (\<lambda>e. \<not> list_all plain_char e) REMOVED_EXPRESSIONS"
  by code_simp

lemma substitution_pipeline_plain:
  "list_all plain_char s \<Longrightarrow> substitution_pipeline s = s"
  by (simp add: substitution_pipeline_def fold_substitutions_untouched fold_removed_untouched
      substitutions_not_plain removed_not_plain)

lemma re_sub_no_match:
  "(\<And>ys. list_all P ys \<Longrightarrow> m ys = None) \<Longrightarrow> list_all P s \<Longrightarrow> re_sub m s = s"
proof (induction s)
  case Nil
  then show ?case by simp
next
  case (Cons x xs)
  have "m (x # xs) = None" using Cons.prems by blast
  moreover have "re_sub m xs = xs" using Cons by simp
  ultimately show ?case by simp
qed

lemma dropWhile_head_in: "dropWhile Q ys = c # r \<Longrightarrow> c \<in> set ys"
  by (metis list.set_intros(1) set_dropWhileD)

lemma plain_not_dollar: "plain_char c \<Longrightarrow> c \<noteq> CHR ''$''"
  by (auto simp: plain_char_def re_digit_def)

lemma m_dollar_line_plain: "list_all plain_char ys \<Longrightarrow> m_dollar_line ys = None"
proof -
  assume a: "list_all plain_char ys"
  show ?thesis
  proof (cases "dropWhile not_dollar ys")
    case Nil
    then show ?thesis by (simp add: m_dollar_line_def del: dropWhile_eq_Nil_conv)
  next
    case (Cons c r)
    then have "c \<in> set ys" by (rule dropWhile_head_in)
    with a have "c \<noteq> CHR ''$''" using plain_not_dollar by (auto simp: list_all_iff)
    then show ?thesis using Cons by (simp add: m_dollar_line_def)
  qed
qed

lemma m_unwrap_plain:
  "\<not> list_all plain_char name \<Longrightarrow> list_all plain_char ys \<Longrightarrow> m_unwrap name ys = None"
  using prefix_list_all[of name ys plain_char] by (auto simp: m_unwrap_def)

lemma marker_not_plain: "\<not> list_all plain_char marker"
  by code_simp

lemma m_boxed_plain: "list_all plain_char ys \<Longrightarrow> m_boxed ys = None"
  using prefix_list_all[of marker ys plain_char] marker_not_plain by (auto simp: m_boxed_def)

lemma m_frac_plain: "list_all plain_char ys \<Longrightarrow> m_frac ys = None"
proof -
  have "\<not> list_all plain_char ''frac''" by code_simp
  then show "list_all plain_char ys \<Longrightarrow> m_frac ys = None"
    using prefix_list_all[of "''frac''" ys plain_char] by (auto simp: m_frac_def)
qed

lemma m_sqrt_plain: "list_all plain_char ys \<Longrightarrow> m_sqrt ys = None"
proof -
  have "\<not> list_all plain_char ''sqrt''" by code_simp
  then show "list_all plain_char ys \<Longrightarrow> m_sqrt ys = None"
    using prefix_list_all[of "''sqrt''" ys plain_char] by (auto simp: m_sqrt_def)
qed

lemma structural_stripper_plain:
  assumes "list_all plain_char s"
  shows "structural_stripper s = comma_pass s"
proof -
  have n1: "\<not> list_all plain_char (CHR 0x5C # ''text{'')" by code_simp
  have n2: "\<not> list_all plain_char (CHR 0x5C # ''textbf{'')" by code_simp
  have n3: "\<not> list_all plain_char (CHR 0x5C # ''overline{'')" by code_simp
  have n4: "\<not> list_all plain_char ''$''" by code_simp
  have 1: "re_sub m_dollar_line s = s"
    using assms by (intro re_sub_no_match[of plain_char]) (simp_all add: m_dollar_line_plain)
  have 2: "re_sub (m_unwrap (CHR 0x5C # ''text{'')) s = s"
    using assms n1 by (intro re_sub_no_match[of plain_char]) (simp_all add: m_unwrap_plain)
  have 3: "re_sub (m_unwrap (CHR 0x5C # ''textbf{'')) s = s"
    using assms n2 by (intro re_sub_no_match[of plain_char]) (simp_all add: m_unwrap_plain)
  have 4: "re_sub (m_unwrap (CHR 0x5C # ''overline{'')) s = s"
    using assms n3 by (intro re_sub_no_match[of plain_char]) (simp_all add: m_unwrap_plain)
  have 5: "re_sub m_boxed s = s"
    using assms by (intro re_sub_no_match[of plain_char]) (simp_all add: m_boxed_plain)
  have 6: "re_sub m_frac s = s"
    using assms by (intro re_sub_no_match[of plain_char]) (simp_all add: m_frac_plain)
  have 7: "re_sub m_sqrt s = s"
    using assms by (intro re_sub_no_match[of plain_char]) (simp_all add: m_sqrt_plain)
  have 8: "py_replace ''$'' [] s = s"
    using assms n4 by (rule py_replace_untouched)
  show ?thesis
    by (simp add: structural_stripper_def Let_def 1 2 3 4 5 6 7 8)
qed

lemma plain_no_equals: "list_all plain_char s \<Longrightarrow> CHR ''='' \<notin> set s"
  by (auto simp: list_all_iff plain_char_def re_digit_def)

lemma normalize_plain:
  "list_all plain_char s \<Longrightarrow> normalize_final_answer s = comma_pass s"
  by (simp add: normalize_final_answer_def split_last_eq_absent plain_no_equals
      substitution_pipeline_plain structural_stripper_plain)

lemma comma_pass_no_comma: "CHR '','' \<notin> set s \<Longrightarrow> comma_pass s = s"
proof -
  assume "CHR '','' \<notin> set s"
  then have "filter (\<lambda>c. c \<noteq> CHR '','') s = s" by (induction s) auto
  then show ?thesis by (simp add: comma_pass_def py_replace_comma)
qed

lemma re_digit_plain: "re_digit c \<Longrightarrow> plain_char c"
  by (simp add: plain_char_def)

lemma pure_numeric_fixed: "pure_numeric x \<Longrightarrow> normalize_final_answer x = x"
proof -
  assume a: "pure_numeric x"
  then have p: "list_all plain_char x"
    by (auto simp: pure_numeric_def list_all_iff re_digit_plain)
  have "\<not> re_digit CHR '',''" by (simp add: re_digit_def)
  with a have "CHR '','' \<notin> set x" by (auto simp: pure_numeric_def list_all_iff)
  then show ?thesis using p by (simp add: normalize_plain comma_pass_no_comma)
qed

lemma simple_bracketed_fixed: "simple_bracketed x \<Longrightarrow> normalize_final_answer x = x"
proof -
  assume a: "simple_bracketed x"
  then obtain c r where x: "x = c # r" and c: "c = CHR ''('' \<or> c = CHR ''[''" and r: "r \<noteq> []"
    and l: "last r = CHR '')'' \<or> last r = CHR '']''"
    and b: "list_all (\<lambda>d. re_digit d \<or> d = CHR ''+'' \<or> d = CHR ''-'' \<or> d = CHR ''.'' \<or> d = CHR '','')
            (butlast r)"
    by (cases x) (auto simp: simple_bracketed_def)
  have pb: "list_all plain_char (butlast r)"
    using b by (auto simp: list_all_iff plain_char_def)
  have pl: "plain_char (last r)" using l by (auto simp: plain_char_def)
  have "list_all plain_char (butlast r @ [last r])" using pb pl by simp
  then have "list_all plain_char r" using r by simp
  moreover have "plain_char c" using c by (auto simp: plain_char_def)
  ultimately have p: "list_all plain_char x" using x by simp
  have "\<not> (isdigit_char c \<or> c = CHR '','')" using c by (auto simp: isdigit_char_def)
  then have "\<not> digits_and_commas x" using x by (simp add: digits_and_commas_def)
  then have "comma_pass x = x" by (simp add: comma_pass_char)
  then show ?thesis using p by (simp add: normalize_plain)
qed

section \<open>Properties of the matchers and of \<^verbatim>\<open>findall\<close>\<close>

lemma takeWhile_all_then:
  "list_all P ds \<Longrightarrow> \<not> P c \<Longrightarrow> takeWhile P (ds @ c # f) = ds"
  by (induction ds) auto

lemma m_decimal_shape:
  assumes "m_decimal xs = Some tok"
  shows "prefix tok xs \<and> tok \<noteq> [] \<and> regex_token tok \<and>
         list_all (\<lambda>c. re_digit c \<or> c = CHR ''+'' \<or> c = CHR ''-'' \<or> c = CHR ''.'') tok"
proof -
  define sg where "sg = (case xs of [] \<Rightarrow> [] | c # _ \<Rightarrow>
      if c = CHR ''-'' \<or> c = CHR ''+'' then [c] else [])"
  define r0 where "r0 = drop (length sg) xs"
  define ds where "ds = takeWhile re_digit r0"
  have nd: "\<not> re_digit CHR ''.''" "\<not> re_digit CHR ''-''" "\<not> re_digit CHR ''+''"
    by (simp_all add: re_digit_def)
  from assms obtain r1 where dw: "dropWhile re_digit r0 = CHR ''.'' # r1"
    and fs: "takeWhile re_digit r1 \<noteq> []"
    and tok: "tok = sg @ ds @ ''.'' @ takeWhile re_digit r1"
    unfolding m_decimal_def sg_def[symmetric] Let_def r0_def[symmetric] ds_def[symmetric]
    by (auto split: list.splits if_splits)
  let ?fs = "takeWhile re_digit r1"
  have xs: "xs = sg @ r0"
    unfolding r0_def sg_def by (cases xs) auto
  have r0: "r0 = ds @ CHR ''.'' # r1"
    using dw takeWhile_dropWhile_id[of re_digit r0] by (simp add: ds_def)
  have r1: "r1 = ?fs @ dropWhile re_digit r1" by simp
  have "xs = sg @ ds @ CHR ''.'' # (?fs @ dropWhile re_digit r1)"
    using xs r0 by simp
  then have "xs = tok @ dropWhile re_digit r1"
    unfolding tok by simp
  then have p: "prefix tok xs" by (metis prefixI)
  have dsd: "list_all re_digit ds"
    unfolding ds_def by (simp add: list_all_iff) (meson set_takeWhileD)
  have fsd: "list_all re_digit ?fs"
    by (simp add: list_all_iff) (meson set_takeWhileD)
  have sgs: "sg = [] \<or> sg = ''-'' \<or> sg = ''+''"
    unfolding sg_def by (cases xs) auto
  have sg_tok: "(case tok of [] \<Rightarrow> [] | c # _ \<Rightarrow>
      if c = CHR ''-'' \<or> c = CHR ''+'' then [c] else []) = sg"
  proof (cases "sg = []")
    case False
    with sgs tok show ?thesis by auto
  next
    case True
    show ?thesis
    proof (cases ds)
      case Nil
      with True tok show ?thesis by simp
    next
      case (Cons d ds')
      with dsd have "re_digit d" by simp
      then have "d \<noteq> CHR ''-'' \<and> d \<noteq> CHR ''+''" using nd by auto
      with True tok Cons show ?thesis by simp
    qed
  qed
  have dr: "drop (length sg) tok = ds @ CHR ''.'' # ?fs" using tok by simp
  have tw: "takeWhile re_digit (ds @ CHR ''.'' # ?fs) = ds"
    using dsd nd(1) by (rule takeWhile_all_then)
  have nt: "regex_token tok"
    unfolding regex_token_def sg_tok Let_def dr tw
    using fs fsd by simp
  have "list_all (\<lambda>c. re_digit c \<or> c = CHR ''+'' \<or> c = CHR ''-'' \<or> c = CHR ''.'') tok"
    using sgs dsd fsd unfolding tok by (auto simp: list_all_iff)
  with p nt tok show ?thesis by simp
qed

lemma m_number_shape:
  assumes "m_number xs = Some (tok, n)"
  shows "n = length tok \<and> prefix tok xs \<and> tok \<noteq> [] \<and> regex_token tok \<and>
         list_all (\<lambda>c. re_digit c \<or> c = CHR ''+'' \<or> c = CHR ''-'' \<or> c = CHR ''.'') tok"
proof (cases "m_decimal xs")
  case (Some t)
  with assms have "tok = t" "n = length tok" by (auto simp: m_number_def)
  then show ?thesis using m_decimal_shape[OF Some] by simp
next
  case None
  with assms have tok: "tok = takeWhile re_digit xs" and ne: "tok \<noteq> []" and n: "n = length tok"
    by (auto simp: m_number_def Let_def split: if_splits)
  have d: "list_all re_digit tok"
    unfolding tok by (simp add: list_all_iff) (meson set_takeWhileD)
  have p: "prefix tok xs"
    unfolding tok by (metis prefixI takeWhile_dropWhile_id)
  have "regex_token tok" using ne d by (simp add: regex_token_def Let_def)
  moreover have "list_all (\<lambda>c. re_digit c \<or> c = CHR ''+'' \<or> c = CHR ''-'' \<or> c = CHR ''.'') tok"
    using d by (auto simp: list_all_iff)
  ultimately show ?thesis using n p ne by simp
qed

lemma m_dollar_span_shape:
  assumes "m_dollar_span v = Some (c, n)"
  shows "\<exists>rest. v = ''$'' @ c @ ''$'' @ rest \<and> n = length c + 2 \<and> list_all not_dollar c"
proof -
  from assms obtain r where v: "v = CHR ''$'' # r"
    by (cases v) (auto simp: m_dollar_span_def split: if_splits)
  from assms v obtain r2 where dw: "dropWhile not_dollar r = CHR ''$'' # r2"
    and c: "c = takeWhile not_dollar r" and n: "n = length c + 2"
    by (auto simp: m_dollar_span_def Let_def split: list.splits if_splits)
  have "r = c @ CHR ''$'' # r2"
    using dw c takeWhile_dropWhile_id[of not_dollar r] by simp
  moreover have "list_all not_dollar c"
    unfolding c by (simp add: list_all_iff) (meson set_takeWhileD)
  ultimately show ?thesis using v n by simp
qed

lemma re_findall_last:
  "\<forall>zs r n. m zs = Some (r, n) \<longrightarrow> 1 \<le> n \<Longrightarrow> re_findall m xs \<noteq> [] \<Longrightarrow>
     \<exists>u v n. xs = u @ v \<and> m v = Some (last (re_findall m xs), n) \<and>
             re_findall m (drop n v) = []"
proof (induction m xs rule: re_findall.induct)
  case (1 m)
  then show ?case by simp
next
  case (2 m x xs)
  show ?case
  proof (cases "m (x # xs)")
    case None
    then have "re_findall m xs \<noteq> []" using "2.prems"(2) by simp
    from "2.IH"(1)[OF None "2.prems"(1) this]
    obtain u v n where uv: "xs = u @ v" "m v = Some (last (re_findall m xs), n)"
      "re_findall m (drop n v) = []" by blast
    have "x # xs = (x # u) @ v" using uv(1) by simp
    moreover have "m v = Some (last (re_findall m (x # xs)), n)" using uv(2) None by simp
    ultimately show ?thesis using uv(3) by blast
  next
    case (Some a)
    obtain f n where a: "a = (f, n)" by (cases a)
    have n1: "1 \<le> n" using Some a "2.prems"(1) by blast
    then have dn: "drop n (x # xs) = drop (n - 1) xs" by (cases n) simp_all
    show ?thesis
    proof (cases "re_findall m (drop (n - 1) xs) = []")
      case True
      have "x # xs = [] @ (x # xs)" by simp
      moreover have "m (x # xs) = Some (last (re_findall m (x # xs)), n)"
        using Some a True by simp
      moreover have "re_findall m (drop n (x # xs)) = []" using True dn by simp
      ultimately show ?thesis by blast
    next
      case False
      from "2.IH"(2)[OF Some a[symmetric] "2.prems"(1) False]
      obtain u v k where d: "drop (n - 1) xs = u @ v"
        and mv: "m v = Some (last (re_findall m (drop (n - 1) xs)), k)"
        and e: "re_findall m (drop k v) = []" by blast
      have "take (n - 1) xs @ drop (n - 1) xs = xs" by (rule append_take_drop_id)
      then have "take (n - 1) xs @ u @ v = xs" by (simp only: d)
      then have "x # xs = (x # take (n - 1) xs @ u) @ v" by simp
      moreover have "last (re_findall m (x # xs)) = last (re_findall m (drop (n - 1) xs))"
        using Some a False by simp
      ultimately have "x # xs = (x # take (n - 1) xs @ u) @ v \<and>
          m v = Some (last (re_findall m (x # xs)), k) \<and> re_findall m (drop k v) = []"
        using mv e by simp
      then show ?thesis by blast
    qed
  qed
qed

lemma m_dollar_span_pos: "m_dollar_span zs = Some (r, n) \<Longrightarrow> 1 \<le> n"
  using m_dollar_span_shape by fastforce

lemma m_number_pos: "m_number zs = Some (r, n) \<Longrightarrow> 1 \<le> n"
  using m_number_shape[of zs r n] by (cases r) auto

lemma last_dollar_span:
  assumes "re_findall m_dollar_span w \<noteq> []"
  shows "\<exists>u v. w = u @ ''$'' @ last (re_findall m_dollar_span w) @ ''$'' @ v \<and>
           list_all not_dollar (last (re_findall m_dollar_span w)) \<and>
           re_findall m_dollar_span v = []"
proof -
  let ?c = "last (re_findall m_dollar_span w)"
  obtain u v n where w: "w = u @ v" and mv: "m_dollar_span v = Some (?c, n)"
    and e: "re_findall m_dollar_span (drop n v) = []"
    using re_findall_last[of m_dollar_span w] m_dollar_span_pos assms by blast
  from m_dollar_span_shape[OF mv] obtain rest where
    v: "v = ''$'' @ ?c @ ''$'' @ rest" and n: "n = length ?c + 2" and nd: "list_all not_dollar ?c"
    by blast
  have "drop n v = rest" using v n by simp
  with e have "re_findall m_dollar_span rest = []" by simp
  moreover have "w = u @ ''$'' @ ?c @ ''$'' @ rest" using w v by simp
  ultimately show ?thesis using nd by blast
qed

lemma last_regex_token:
  assumes "re_findall m_number w \<noteq> []"
  shows "\<exists>u v. w = u @ last (re_findall m_number w) @ v \<and>
           regex_token (last (re_findall m_number w)) \<and>
           list_all (\<lambda>c. re_digit c \<or> c = CHR ''+'' \<or> c = CHR ''-'' \<or> c = CHR ''.'')
             (last (re_findall m_number w)) \<and>
           re_findall m_number v = []"
proof -
  let ?c = "last (re_findall m_number w)"
  obtain u v n where w: "w = u @ v" and mv: "m_number v = Some (?c, n)"
    and e: "re_findall m_number (drop n v) = []"
    using re_findall_last[of m_number w] m_number_pos assms by blast
  from m_number_shape[OF mv] have n: "n = length ?c" and p: "prefix ?c v"
    and nt: "regex_token ?c"
    and ch: "list_all (\<lambda>c. re_digit c \<or> c = CHR ''+'' \<or> c = CHR ''-'' \<or> c = CHR ''.'') ?c"
    by simp_all
  from p obtain rest where v: "v = ?c @ rest" by (auto simp: prefix_def)
  then have "drop n v = rest" using n by simp
  with e have "re_findall m_number rest = []" by simp
  moreover have "w = u @ ?c @ rest" using w v by simp
  ultimately show ?thesis using nt ch by blast
qed

lemma phrase_unbordered: "hd phrase \<notin> set (tl phrase) \<and> phrase \<noteq> []"
  by (simp add: phrase_def)

lemma working_text_absent:
  "\<not> (\<exists>a b. pred = a @ phrase @ b) \<Longrightarrow> working_text pred = pred"
  by (simp add: working_text_def py_in_def py_find_absent)

lemma working_text_after:
  assumes "pred = a @ phrase @ b" and "\<not> (\<exists>p q. b = p @ phrase @ q)"
  shows "working_text pred = py_strip b"
proof -
  have "py_in phrase pred"
    using assms(1) by (auto simp: py_in_def py_find_absent)
  moreover have "split_last phrase pred = b"
    unfolding split_last_def assms(1)
    using phrase_unbordered assms(2) by (intro split_from_last) simp_all
  ultimately show ?thesis by (simp add: working_text_def)
qed

lemma locate_unfold:
  "locate pred =
     (if re_findall m_dollar_span (working_text pred) \<noteq> []
      then Dollar (last (re_findall m_dollar_span (working_text pred)))
      else if re_findall m_number (working_text pred) \<noteq> []
      then Numeric (last (re_findall m_number (working_text pred)))
      else Raw (working_text pred))"
  by (simp add: locate_def Let_def)

lemma number_chars_fixed:
  assumes "list_all (\<lambda>c. re_digit c \<or> c = CHR ''+'' \<or> c = CHR ''-'' \<or> c = CHR ''.'') tok"
  shows "normalize_final_answer tok = tok"
proof -
  have p: "list_all plain_char tok"
    using assms by (auto simp: list_all_iff plain_char_def)
  have "\<not> re_digit CHR '',''" by (simp add: re_digit_def)
  with assms have "CHR '','' \<notin> set tok" by (auto simp: list_all_iff)
  then show ?thesis using p by (simp add: normalize_plain comma_pass_no_comma)
qed

lemma number_chars_unchanged:
  assumes "list_all (\<lambda>c. re_digit c \<or> c = CHR ''+'' \<or> c = CHR ''-'' \<or> c = CHR ''.'') tok"
  shows "structural_stripper (substitution_pipeline tok) = tok"
proof -
  have p: "list_all plain_char tok"
    using assms by (auto simp: list_all_iff plain_char_def)
  have "\<not> re_digit CHR '',''" by (simp add: re_digit_def)
  with assms have "CHR '','' \<notin> set tok" by (auto simp: list_all_iff)
  then show ?thesis
    using p by (simp add: substitution_pipeline_plain structural_stripper_plain comma_pass_no_comma)
qed

section \<open>The claims\<close>

subsection \<open>BraceExtractor\<close>

text \<open>
  Claim C4. When the text holds the marker, first at the end of \<open>pre\<close>, and the depth, which
  starts at 1 after the marker's brace, goes up on an opening and down on a closing brace, stays
  positive through \<open>body\<close> and is brought to 0 by the closing brace that follows \<open>body\<close>,
  then \<^verbatim>\<open>extract_inner_content\<close> returns exactly \<open>body\<close>: what lies between the marker's
  brace and the brace that closes it, nested braces included.
\<close>

theorem extract_balanced:
  assumes "t = pre @ marker @ body @ CHR ''}'' # rest"
    and "\<forall>p q. t = p @ marker @ q \<longrightarrow> length pre \<le> length p"
    and "\<forall>n \<le> length body. 0 < brace_depth (take n body)"
    and "brace_depth body = 1"
  shows "extract_inner_content t = Inr (Some body)"
proof -
  have f: "py_find t marker = int (length pre)"
    using assms(1,2) by (rule py_find_first)
  have "scanned 1 (body @ CHR ''}'' # rest) = Suc (length body)"
    using assms(3,4) by (intro scanned_closed) simp_all
  then show ?thesis
    using extract_found[OF assms(1) f] by simp
qed

text \<open>The example of the specification: the nested braces of a fraction are tracked.\<close>

theorem extract_balanced_witness:
  "extract_inner_content (''So '' @ marker @ (CHR 0x5C # ''frac{1}{2}'') @ CHR ''}'' # ''.'')
     = Inr (Some (CHR 0x5C # ''frac{1}{2}''))"
proof -
  let ?t = "''So '' @ marker @ (CHR 0x5C # ''frac{1}{2}'') @ CHR ''}'' # ''.''"
  have f: "py_find ?t marker = int (length ''So '')"
    by (simp add: py_find_def marker_def)
  have 1: "\<forall>p q. ?t = p @ marker @ q \<longrightarrow> length ''So '' \<le> length p"
    using first_occurrence_by_find[OF f] .
  have 2: "\<forall>n \<le> length (CHR 0x5C # ''frac{1}{2}''). 0 < brace_depth (take n (CHR 0x5C # ''frac{1}{2}''))"
    unfolding all_le_upt by (simp add: brace_depth_def upt_rec)
  have 3: "brace_depth (CHR 0x5C # ''frac{1}{2}'') = 1"
    by (simp add: brace_depth_def)
  show ?thesis
    using extract_balanced[OF refl 1 2 3] .
qed

text \<open>
  Claim C5. \<^verbatim>\<open>extract_inner_content\<close> raises on no input; it returns \<^verbatim>\<open>None\<close> exactly
  when the marker does not occur in the text; and when the marker occurs, first at the end of
  \<open>pre\<close>, and the depth never returns to 0 in the rest \<open>r\<close> of the text, it returns \<open>r\<close>
  without its last character, the last one the loop has read.
\<close>

theorem extract_absent_or_truncated:
  "(\<exists>res. extract_inner_content t = Inr res) \<and>
   ((extract_inner_content t = Inr None) = (\<not> (\<exists>p q. t = p @ marker @ q))) \<and>
   (\<forall>pre r. t = pre @ marker @ r \<and>
        (\<forall>p q. t = p @ marker @ q \<longrightarrow> length pre \<le> length p) \<and>
        (\<forall>n \<le> length r. 0 < brace_depth (take n r)) \<longrightarrow>
      extract_inner_content t = Inr (Some (butlast r)))"
proof (intro conjI allI impI)
  show "\<exists>res. extract_inner_content t = Inr res"
  proof (cases "py_find t marker = - 1")
    case True
    then show ?thesis by (simp add: extract_inner_content_def)
  next
    case False
    then obtain k where k: "py_find t marker = int k"
      using py_find_cases[of t marker] by blast
    then obtain p q where "t = p @ marker @ q" "length p = k"
      using py_find_found[OF k] by blast
    with k show ?thesis using extract_found[of t p q] by simp
  qed
next
  show "(extract_inner_content t = Inr None) = (\<not> (\<exists>p q. t = p @ marker @ q))"
  proof (cases "py_find t marker = - 1")
    case True
    then show ?thesis
      using py_find_absent[of t marker] by (simp add: extract_inner_content_def)
  next
    case False
    then obtain k where k: "py_find t marker = int k"
      using py_find_cases[of t marker] by blast
    then obtain p q where pq: "t = p @ marker @ q" "length p = k"
      using py_find_found[OF k] by blast
    with k have "extract_inner_content t \<noteq> Inr None"
      using extract_found[of t p q] by simp
    with pq show ?thesis by blast
  qed
next
  fix pre r
  assume a: "t = pre @ marker @ r \<and>
        (\<forall>p q. t = p @ marker @ q \<longrightarrow> length pre \<le> length p) \<and>
        (\<forall>n \<le> length r. 0 < brace_depth (take n r))"
  then have f: "py_find t marker = int (length pre)"
    by (intro py_find_first[of t pre marker r]) simp_all
  have "scanned 1 r = length r"
    using a by (intro scanned_open) simp
  then show "extract_inner_content t = Inr (Some (butlast r))"
    using extract_found[of t pre r] a f by (simp add: butlast_conv_take)
qed

text \<open>An unterminated box loses its last character; a text without the marker gives \<^verbatim>\<open>None\<close>.\<close>

theorem extract_absent_or_truncated_witness:
  "extract_inner_content (''x'' @ marker @ ''5'') = Inr (Some []) \<and>
   extract_inner_content ''no marker here'' = Inr None"
proof -
  let ?t = "''x'' @ marker @ ''5''"
  have f: "py_find ?t marker = int (length ''x'')"
    by (simp add: py_find_def marker_def)
  have 1: "\<forall>p q. ?t = p @ marker @ q \<longrightarrow> length ''x'' \<le> length p"
    using first_occurrence_by_find[OF f] .
  have 2: "\<forall>n \<le> length ''5''. 0 < brace_depth (take n ''5'')"
    unfolding all_le_upt by (simp add: brace_depth_def upt_rec)
  have a: "extract_inner_content ?t = Inr (Some (butlast ''5''))"
    using extract_absent_or_truncated[of ?t] 1 2 by blast
  have "py_find ''no marker here'' marker = - 1"
    by (simp add: py_find_def marker_def)
  then have "\<not> (\<exists>p q. ''no marker here'' = p @ marker @ q)"
    by (simp add: py_find_absent)
  then have b: "extract_inner_content ''no marker here'' = Inr None"
    using extract_absent_or_truncated[of "''no marker here''"] by blast
  from a b show ?thesis by simp
qed

subsection \<open>Scorer\<close>

text \<open>
  Claim C7, as amended. For two collections of the same length that are not empty, the
  score is the number of index positions at which the element of the array of predictions
  equals the element of the array of references, over the number of pairs; it lies between
  0 and 1. When no prediction and no reference ends in a NUL character, these are the
  positions at which the prediction and the reference are the same string, compared
  character by character with neither trimming nor case folding.
\<close>

theorem accuracy_fraction:
  assumes "length ps = length rs" and "ps \<noteq> []"
  shows "accuracy ps rs
           = Inr (Number (real (length (array_equal_positions ps rs)) / real (length ps))) \<and>
         0 \<le> real (length (array_equal_positions ps rs)) / real (length ps) \<and>
         real (length (array_equal_positions ps rs)) / real (length ps) \<le> 1 \<and>
         (list_all nul_free ps \<and>
          list_all (\<lambda>r. case r of None \<Rightarrow> True | Some s \<Rightarrow> nul_free s) rs \<longrightarrow>
            accuracy ps rs
              = Inr (Number (real (length (equal_positions ps rs)) / real (length ps))))"
proof -
  have "0 < length ps" using assms(2) by simp
  then have "real (length (array_equal_positions ps rs)) / real (length ps) \<le> 1"
    using array_equal_positions_le[of ps rs] by simp
  then show ?thesis
    using accuracy_equal_length[OF assms] array_positions_exact[of ps rs] by simp
qed

text \<open>One of two pairs agrees: the score is one half.\<close>

theorem accuracy_fraction_witness:
  "accuracy [''4'', ''7''] [Some ''4'', Some ''12''] = Inr (Number (1 / 2))"
proof -
  have e: "equal_positions [''4'', ''7''] [Some ''4'', Some ''12''] = [0]"
    by (simp add: equal_positions_def upt_rec)
  have n: "list_all nul_free [''4'', ''7''] \<and>
      list_all (\<lambda>r. case r of None \<Rightarrow> True | Some s \<Rightarrow> nul_free s) [Some ''4'', Some ''12'']"
    by (simp add: nul_free_def)
  have l: "length [''4'', ''7''] = length [Some ''4'', Some ''12'']" by simp
  have m: "[''4'', ''7''] \<noteq> []" by simp
  have "accuracy [''4'', ''7''] [Some ''4'', Some ''12'']
      = Inr (Number (real (length (equal_positions [''4'', ''7''] [Some ''4'', Some ''12'']))
          / real (length [''4'', ''7''])))"
    using accuracy_fraction[OF l m, THEN conjunct2, THEN conjunct2, THEN conjunct2] n
    by (rule mp)
  then show ?thesis by (simp add: e)
qed

text \<open>
  Claim C7 as stated fails in two ways. Two empty collections have the same length, and
  the mean of the empty array is \<^verbatim>\<open>nan\<close>, which is no fraction between 0 and 1. And a
  prediction that ends in a NUL character counts as equal to a reference without it, the
  array of strings having dropped the NUL: the two strings are not exactly equal, yet the
  score is 1.
\<close>

theorem accuracy_inexact_counterexample:
  "accuracy [] [] = Inr NaN \<and>
   accuracy [[CHR ''4'', CHR 0x00]] [Some ''4''] = Inr (Number 1) \<and>
   [CHR ''4'', CHR 0x00] \<noteq> ''4''"
  by code_simp

text \<open>
  Claim C3, as amended. \<^verbatim>\<open>calculate_metric\<close> has no length check of its own. When the
  number of predictions differs from the number of items and there is exactly one
  prediction, the score is the mean of the comparisons of that prediction with every
  reference, which is \<^verbatim>\<open>nan\<close> when there is no item; when there is exactly one item, the
  score is the mean of the comparisons of every prediction with the reference of that item;
  in every other case the comparison of the two arrays raises \<^verbatim>\<open>ValueError\<close>.
\<close>

theorem scorer_length_mismatch:
  assumes "length predictions \<noteq> length evaluation_data"
  shows "\<exists>rs. references evaluation_data = Inr rs \<and> length rs = length evaluation_data \<and>
     calculate_metric evaluation_data predictions =
       (if length predictions = 1
        then Inr (np_mean (map (\<lambda>r. Some (np_str (cleanse (hd predictions))) = r) (ref_array rs)))
        else if length evaluation_data = 1
        then Inr (np_mean (map (\<lambda>p. Some (np_str (cleanse p)) = hd (ref_array rs)) predictions))
        else Inl ValueError) \<and>
     (length predictions = 1 \<and> evaluation_data = [] \<longrightarrow>
        calculate_metric evaluation_data predictions = Inr NaN)"
proof -
  obtain rs where rs: "references evaluation_data = Inr rs" "length rs = length evaluation_data"
    using references_total by blast
  have ne: "length (answer_cleansing predictions) \<noteq> length rs"
    using assms rs(2) by (simp add: length_answer_cleansing)
  have h: "length predictions = 1 \<Longrightarrow> hd (answer_cleansing predictions) = cleanse (hd predictions)"
    by (cases predictions) (simp_all add: answer_cleansing_def)
  have m: "map (\<lambda>p. Some (np_str p) = hd (ref_array rs)) (answer_cleansing predictions)
      = map (\<lambda>p. Some (np_str (cleanse p)) = hd (ref_array rs)) predictions"
    by (simp add: answer_cleansing_def comp_def)
  have cm: "calculate_metric evaluation_data predictions =
       (if length predictions = 1
        then Inr (np_mean (map (\<lambda>r. Some (np_str (cleanse (hd predictions))) = r) (ref_array rs)))
        else if length evaluation_data = 1
        then Inr (np_mean (map (\<lambda>p. Some (np_str (cleanse p)) = hd (ref_array rs)) predictions))
        else Inl ValueError)"
    using accuracy_mismatch[OF ne] rs h m
    by (simp add: calculate_metric_def length_answer_cleansing)
  have "length predictions = 1 \<and> evaluation_data = [] \<longrightarrow>
        calculate_metric evaluation_data predictions = Inr NaN"
  proof
    assume a: "length predictions = 1 \<and> evaluation_data = []"
    then have "rs = []" using rs(2) by simp
    then have "ref_array rs = []" by (simp add: ref_array_def)
    then show "calculate_metric evaluation_data predictions = Inr NaN"
      using cm a by (simp add: np_mean_def)
  qed
  with rs cm show ?thesis by blast
qed

text \<open>Two predictions against three items: the comparison raises. One prediction and no item: \<^verbatim>\<open>nan\<close>.\<close>

theorem scorer_length_mismatch_witness:
  "calculate_metric
     [\<lparr>problem = ''p'', solution = marker @ ''4}''\<rparr>, \<lparr>problem = ''q'', solution = marker @ ''5}''\<rparr>,
      \<lparr>problem = ''r'', solution = marker @ ''6}''\<rparr>]
     [''$4$'', ''$5$''] = Inl ValueError \<and>
   calculate_metric [] [''$4$''] = Inr NaN"
proof -
  let ?d = "[\<lparr>problem = ''p'', solution = marker @ ''4}''\<rparr>,
      \<lparr>problem = ''q'', solution = marker @ ''5}''\<rparr>, \<lparr>problem = ''r'', solution = marker @ ''6}''\<rparr>]"
  have a: "length [''$4$'', ''$5$''] \<noteq> length ?d" by simp
  have b: "length [''$4$''] \<noteq> length ([] :: item list)" by simp
  obtain rs where "calculate_metric ?d [''$4$'', ''$5$''] =
       (if length [''$4$'', ''$5$''] = 1
        then Inr (np_mean (map (\<lambda>r. Some (np_str (cleanse (hd [''$4$'', ''$5$'']))) = r)
                    (ref_array rs)))
        else if length ?d = 1
        then Inr (np_mean (map (\<lambda>p. Some (np_str (cleanse p)) = hd (ref_array rs))
                    [''$4$'', ''$5$'']))
        else Inl ValueError)"
    using scorer_length_mismatch[OF a] by blast
  then have 1: "calculate_metric ?d [''$4$'', ''$5$''] = Inl ValueError" by simp
  obtain rs' where "length [''$4$''] = 1 \<and> ([] :: item list) = [] \<longrightarrow>
        calculate_metric [] [''$4$''] = Inr NaN"
    using scorer_length_mismatch[OF b] by blast
  then have 2: "calculate_metric [] [''$4$''] = Inr NaN" by simp
  from 1 2 show ?thesis by simp
qed

text \<open>
  Claim C3 as stated fails when one prediction meets two items: the lengths differ, yet
  the single prediction is compared with both references and the score 1 is returned.
\<close>

theorem scorer_broadcast_counterexample:
  "calculate_metric
     [\<lparr>problem = ''p'', solution = marker @ ''4}''\<rparr>, \<lparr>problem = ''q'', solution = marker @ ''4}''\<rparr>]
     [''$4$''] = Inr (Number 1)"
  by code_simp

text \<open>
  Claim C2, as amended. The references that \<^verbatim>\<open>calculate_metric\<close> compares the cleansed
  predictions with are, item by item, what \<^verbatim>\<open>extract_inner_content\<close> returns on the
  solution, the extracted span itself or \<^verbatim>\<open>None\<close>; no normalisation is applied to them.
\<close>

theorem references_raw:
  "\<exists>rs. references evaluation_data = Inr rs \<and> length rs = length evaluation_data \<and>
     (\<forall>k < length evaluation_data.
        extract_inner_content (solution (evaluation_data ! k)) = Inr (rs ! k)) \<and>
     calculate_metric evaluation_data predictions = accuracy (answer_cleansing predictions) rs"
proof -
  obtain rs where rs: "references evaluation_data = Inr rs"
    "length rs = length evaluation_data"
    "\<forall>k < length evaluation_data.
        extract_inner_content (solution (evaluation_data ! k)) = Inr (rs ! k)"
    using references_total by blast
  then show ?thesis by (simp add: calculate_metric_def)
qed

text \<open>The reference of a solution that boxes \<^verbatim>\<open>3,000\<close> keeps its comma.\<close>

theorem references_raw_witness:
  "references [\<lparr>problem = ''p'', solution = marker @ ''3,000}''\<rparr>] = Inr [Some ''3,000'']"
proof -
  let ?d = "[\<lparr>problem = ''p'', solution = marker @ ''3,000}''\<rparr>]"
  obtain rs where rs: "references ?d = Inr rs" "length rs = length ?d"
    "\<forall>k < length ?d. extract_inner_content (solution (?d ! k)) = Inr (rs ! k)"
    using references_raw[of ?d "[]"] by blast
  have e: "extract_inner_content (marker @ ''3,000}'') = Inr (Some ''3,000'')"
    by code_simp
  from rs(3) have "extract_inner_content (solution (?d ! 0)) = Inr (rs ! 0)" by simp
  with e have "rs ! 0 = Some ''3,000''" by simp
  moreover from rs(2) have "length rs = 1" by simp
  ultimately have "rs = [Some ''3,000'']"
    by (cases rs) simp_all
  with rs(1) show ?thesis by simp
qed

text \<open>
  Claim C2 as stated fails on that item: the reference is \<^verbatim>\<open>3,000\<close> where the normalised
  answer would be \<^verbatim>\<open>3000\<close>, and the prediction \<^verbatim>\<open>$3,000$\<close>, which is normalised to
  \<^verbatim>\<open>3000\<close>, scores 0 against it.
\<close>

theorem references_not_normalized_counterexample:
  "references [\<lparr>problem = ''p'', solution = marker @ ''3,000}''\<rparr>] = Inr [Some ''3,000''] \<and>
   normalized_references [\<lparr>problem = ''p'', solution = marker @ ''3,000}''\<rparr>] = Inr [Some ''3000''] \<and>
   calculate_metric [\<lparr>problem = ''p'', solution = marker @ ''3,000}''\<rparr>] [''$3,000$'']
     = Inr (Number 0)"
  by code_simp

subsection \<open>Normalisation\<close>

text \<open>
  Claim C8, as amended. The last pass of \<^verbatim>\<open>structural_stripper\<close> removes the commas if and
  only if the string that reaches it consists of digits and commas only and holds at least
  one digit; otherwise it returns the string as it is, with every comma in place. A digit
  is a character that \<^verbatim>\<open>str.isdigit\<close> accepts. The string \<^verbatim>\<open>3,000\<close> becomes \<^verbatim>\<open>3000\<close>.
\<close>

theorem comma_pass_iff:
  "comma_pass s =
     (if digits_and_commas s \<and> list_ex isdigit_char s then filter (\<lambda>c. c \<noteq> CHR '','') s else s) \<and>
   comma_pass ''3,000'' = ''3000''"
proof -
  have "comma_pass ''3,000'' = ''3000''"
    by (simp add: comma_pass_char digits_and_commas_def isdigit_char_def)
  then show ?thesis using comma_pass_char by blast
qed

text \<open>
  A number with two separators loses them; a comma in a string that still has letters
  stays.
\<close>

theorem comma_pass_iff_witness:
  "comma_pass ''12,345,678'' = ''12345678'' \<and> comma_pass ''3,000feet'' = ''3,000feet''"
proof -
  have 1: "digits_and_commas ''12,345,678'' \<and> list_ex isdigit_char ''12,345,678''"
    by (simp add: digits_and_commas_def isdigit_char_def)
  have 2: "\<not> digits_and_commas ''3,000feet''"
    by (simp add: digits_and_commas_def isdigit_char_def)
  show ?thesis
    using comma_pass_iff[of "''12,345,678''"] comma_pass_iff[of "''3,000feet''"] 1 2 by simp
qed

text \<open>
  Claim C8 as stated fails on a string of commas alone: it consists of digits and commas
  only, but without its commas it is empty, \<^verbatim>\<open>isdigit\<close> is false on the empty string, and
  the comma stays.
\<close>

theorem comma_only_counterexample:
  "digits_and_commas '','' \<and> comma_pass '','' = '','' \<and> structural_stripper '','' = '',''"
  by code_simp

text \<open>
  Claim C10. The normalisation starts from what follows the last equals sign: when
  \<open>t\<close> has no equals sign, an input that ends in an equals sign followed by \<open>t\<close> is
  normalised to the same string as \<open>t\<close>, the two pipelines being run on \<open>t\<close> alone; an
  input without an equals sign is processed as a whole.
\<close>

theorem normalize_after_last_equals:
  "(CHR ''='' \<notin> set t \<longrightarrow>
      normalize_final_answer (a @ ''='' @ t) = normalize_final_answer t \<and>
      normalize_final_answer (a @ ''='' @ t) = structural_stripper (substitution_pipeline t)) \<and>
   (CHR ''='' \<notin> set s \<longrightarrow>
      normalize_final_answer s = structural_stripper (substitution_pipeline s))"
  using split_last_eq_after[of t a] split_last_eq_absent[of t] split_last_eq_absent[of s]
  by (auto simp: normalize_final_answer_def)

text \<open>Of \<^verbatim>\<open>x=2=3,000\<close> only \<^verbatim>\<open>3,000\<close> is normalised.\<close>

theorem normalize_after_last_equals_witness:
  "normalize_final_answer ''x=2=3,000'' = normalize_final_answer ''3,000'' \<and>
   normalize_final_answer ''3,000'' = structural_stripper (substitution_pipeline ''3,000'')"
proof -
  have 1: "CHR ''='' \<notin> set ''3,000''" by simp
  have 2: "''x=2=3,000'' = ''x=2'' @ ''='' @ ''3,000''" by simp
  show ?thesis
    using normalize_after_last_equals[of "''3,000''" "''x=2''" "''3,000''"] 1
    unfolding 2 by blast
qed

text \<open>
  Claim C9. A pure numeric answer, a string of digits, and a simple bracketed answer, a
  tuple or an interval of numbers between parentheses or square brackets, are left as they
  are by the normalisation; normalising such an answer twice therefore gives the same
  string as normalising it once.
\<close>

theorem normalize_idempotent:
  assumes "pure_numeric x \<or> simple_bracketed x"
  shows "normalize_final_answer x = x \<and>
         normalize_final_answer (normalize_final_answer x) = normalize_final_answer x"
proof -
  have "normalize_final_answer x = x"
    using assms pure_numeric_fixed simple_bracketed_fixed by blast
  then show ?thesis by simp
qed

text \<open>A number and a half-open interval.\<close>

theorem normalize_idempotent_witness:
  "normalize_final_answer (normalize_final_answer ''3000'') = normalize_final_answer ''3000'' \<and>
   normalize_final_answer (normalize_final_answer ''(-1,2.5]'') = normalize_final_answer ''(-1,2.5]'' \<and>
   normalize_final_answer ''(-1,2.5]'' = ''(-1,2.5]''"
proof -
  have 1: "pure_numeric ''3000''" by (simp add: pure_numeric_def re_digit_def)
  have 2: "simple_bracketed ''(-1,2.5]''" by (simp add: simple_bracketed_def re_digit_def)
  show ?thesis
    using normalize_idempotent[of "''3000''"] normalize_idempotent[of "''(-1,2.5]''"] 1 2
    by simp
qed

subsection \<open>CandidateLocator and the cleansing of predictions\<close>

text \<open>
  The order of the selection. The working text is the prediction itself when the phrase
  \<^verbatim>\<open>The answer is \<close> does not occur in it, and otherwise what follows the last occurrence of
  the phrase, stripped of surrounding white space. If \<^verbatim>\<open>findall\<close> reports a dollar-delimited
  span in the working text, the candidate is the content of the last one; otherwise, if it
  reports a token of the numeric expression, the candidate is the last one; otherwise the
  candidate is the working text.
\<close>

theorem candidate_selection:
  "(\<not> (\<exists>a b. pred = a @ phrase @ b) \<longrightarrow> working_text pred = pred) \<and>
   (\<forall>a b. pred = a @ phrase @ b \<and> \<not> (\<exists>p q. b = p @ phrase @ q) \<longrightarrow>
      working_text pred = py_strip b) \<and>
   locate pred =
     (if re_findall m_dollar_span (working_text pred) \<noteq> []
      then Dollar (last (re_findall m_dollar_span (working_text pred)))
      else if re_findall m_number (working_text pred) \<noteq> []
      then Numeric (last (re_findall m_number (working_text pred)))
      else Raw (working_text pred)) \<and>
   (\<forall>c. locate pred = Dollar c \<longrightarrow>
      (\<exists>u v. working_text pred = u @ ''$'' @ c @ ''$'' @ v \<and> list_all not_dollar c \<and>
             re_findall m_dollar_span v = [])) \<and>
   (\<forall>c. locate pred = Numeric c \<longrightarrow>
      re_findall m_dollar_span (working_text pred) = [] \<and>
      (\<exists>u v. working_text pred = u @ c @ v \<and> regex_token c \<and> re_findall m_number v = [])) \<and>
   (\<forall>c. locate pred = Raw c \<longrightarrow>
      c = working_text pred \<and> re_findall m_dollar_span c = [] \<and> re_findall m_number c = [])"
proof (intro conjI allI impI)
  show "\<not> (\<exists>a b. pred = a @ phrase @ b) \<Longrightarrow> working_text pred = pred"
    by (rule working_text_absent)
next
  fix a b
  assume "pred = a @ phrase @ b \<and> \<not> (\<exists>p q. b = p @ phrase @ q)"
  then show "working_text pred = py_strip b"
    using working_text_after by blast
next
  show "locate pred =
     (if re_findall m_dollar_span (working_text pred) \<noteq> []
      then Dollar (last (re_findall m_dollar_span (working_text pred)))
      else if re_findall m_number (working_text pred) \<noteq> []
      then Numeric (last (re_findall m_number (working_text pred)))
      else Raw (working_text pred))"
    by (rule locate_unfold)
next
  fix c assume "locate pred = Dollar c"
  then have ne: "re_findall m_dollar_span (working_text pred) \<noteq> []"
    and c: "c = last (re_findall m_dollar_span (working_text pred))"
    by (auto simp: locate_unfold split: if_splits)
  show "\<exists>u v. working_text pred = u @ ''$'' @ c @ ''$'' @ v \<and> list_all not_dollar c \<and>
             re_findall m_dollar_span v = []"
    unfolding c using last_dollar_span[OF ne] .
next
  fix c assume "locate pred = Numeric c"
  then show "re_findall m_dollar_span (working_text pred) = []"
    by (auto simp: locate_unfold split: if_splits)
next
  fix c assume "locate pred = Numeric c"
  then have ne: "re_findall m_number (working_text pred) \<noteq> []"
    and c: "c = last (re_findall m_number (working_text pred))"
    by (auto simp: locate_unfold split: if_splits)
  from last_regex_token[OF ne]
  show "\<exists>u v. working_text pred = u @ c @ v \<and> regex_token c \<and> re_findall m_number v = []"
    unfolding c by blast
next
  fix c assume "locate pred = Raw c"
  then show "c = working_text pred"
    by (auto simp: locate_unfold split: if_splits)
next
  fix c assume "locate pred = Raw c"
  then show "re_findall m_dollar_span c = []"
    by (auto simp: locate_unfold split: if_splits)
next
  fix c assume "locate pred = Raw c"
  then show "re_findall m_number c = []"
    by (auto simp: locate_unfold split: if_splits)
qed

text \<open>The three branches, with a phrase that is followed by two spans.\<close>

theorem candidate_selection_examples:
  "working_text ''Thus 7. The answer is  $1$ and $2$ '' = ''$1$ and $2$'' \<and>
   locate ''Thus 7. The answer is  $1$ and $2$ '' = Dollar ''2'' \<and>
   locate ''no digits here but 12 is here'' = Numeric ''12'' \<and>
   locate ''it is -5'' = Numeric ''5'' \<and>
   locate ''none'' = Raw ''none''"
proof -
  let ?p = "''Thus 7. The answer is  $1$ and $2$ ''"
  have d: "?p = ''Thus 7. '' @ phrase @ '' $1$ and $2$ ''" by (simp add: phrase_def)
  have "py_find '' $1$ and $2$ '' phrase = - 1" by code_simp
  then have nb: "\<not> (\<exists>p q. '' $1$ and $2$ '' = p @ phrase @ q)"
    by (simp add: py_find_absent)
  have "\<forall>a b. ?p = a @ phrase @ b \<and> \<not> (\<exists>p q. b = p @ phrase @ q) \<longrightarrow>
      working_text ?p = py_strip b"
    using candidate_selection[of ?p, THEN conjunct2, THEN conjunct1] .
  then have w: "working_text ?p = py_strip '' $1$ and $2$ ''"
    using d nb by blast
  have s: "py_strip '' $1$ and $2$ '' = ''$1$ and $2$''" by code_simp
  have f1: "re_findall m_dollar_span ''$1$ and $2$'' = [''1'', ''2'']" by code_simp
  have l1: "locate ?p = Dollar ''2''"
    using candidate_selection[of ?p, THEN conjunct2, THEN conjunct2, THEN conjunct1]
    unfolding w s f1 by simp
  have w2: "working_text ''no digits here but 12 is here'' = ''no digits here but 12 is here''"
    by code_simp
  have f2: "re_findall m_dollar_span ''no digits here but 12 is here'' = []" by code_simp
  have g2: "re_findall m_number ''no digits here but 12 is here'' = [''12'']" by code_simp
  have l2: "locate ''no digits here but 12 is here'' = Numeric ''12''"
    using candidate_selection[of "''no digits here but 12 is here''",
        THEN conjunct2, THEN conjunct2, THEN conjunct1]
    unfolding w2 f2 g2 by simp
  have w3: "working_text ''it is -5'' = ''it is -5''" by code_simp
  have f3: "re_findall m_dollar_span ''it is -5'' = []" by code_simp
  have g3: "re_findall m_number ''it is -5'' = [''5'']" by code_simp
  have l3: "locate ''it is -5'' = Numeric ''5''"
    using candidate_selection[of "''it is -5''", THEN conjunct2, THEN conjunct2, THEN conjunct1]
    unfolding w3 f3 g3 by simp
  have w4: "working_text ''none'' = ''none''" by code_simp
  have f4: "re_findall m_dollar_span ''none'' = []" by code_simp
  have g4: "re_findall m_number ''none'' = []" by code_simp
  have l4: "locate ''none'' = Raw ''none''"
    using candidate_selection[of "''none''", THEN conjunct2, THEN conjunct2, THEN conjunct1]
    unfolding w4 f4 g4 by simp
  from w s l1 l2 l3 l4 show ?thesis by simp
qed

text \<open>
  Claim C6. The claim describes the order above, with a signed decimal or integer as the
  numeric token. The code does not do this on a signed integer. In the expression
  \<^verbatim>\<open>[-+]?\d*\.\d+|\d+\<close> the optional sign belongs to the first alternative, the decimal;
  the second alternative, the integer, has none. For the prediction \<^verbatim>\<open>The answer is -5\<close>
  the working text is \<^verbatim>\<open>-5\<close>, a signed integer, which a scan that reads the sign before
  either form returns whole; the code selects \<^verbatim>\<open>5\<close>, and the prediction scores 0 against
  the reference \<^verbatim>\<open>-5\<close>. On a decimal the sign is kept: \<^verbatim>\<open>-.5\<close> is selected whole.
\<close>

theorem integer_sign_dropped:
  "working_text ''The answer is -5'' = ''-5'' \<and>
   number_token ''-5'' \<and>
   re_findall spec_number_match ''-5'' = [''-5''] \<and>
   re_findall m_number ''-5'' = [''5''] \<and>
   locate ''The answer is -5'' = Numeric ''5'' \<and>
   cleanse ''The answer is -5'' = ''5'' \<and>
   locate ''The answer is -.5'' = Numeric ''-.5'' \<and>
   calculate_metric [\<lparr>problem = ''p'', solution = marker @ ''-5}''\<rparr>] [''The answer is -5'']
     = Inr (Number 0)"
  by code_simp

text \<open>
  Claim C1, as amended. What \<^verbatim>\<open>answer_cleansing\<close> returns for a prediction depends on the
  branch. When the candidate is a dollar-delimited span, it is what follows the last equals
  sign of the candidate, the whole candidate when it has none, passed through
  \<^verbatim>\<open>substitution_pipeline\<close> and then \<^verbatim>\<open>structural_stripper\<close>. When the candidate is a
  numeric token, it is the token as found, which is also the token passed through the two
  of them. In the fallback branch it is the working text itself, to which neither is
  applied.
\<close>

theorem cleanse_by_branch:
  "(case locate pred of
      Dollar c \<Rightarrow>
        cleanse pred = structural_stripper (substitution_pipeline (split_last ''='' c)) \<and>
        (\<forall>a t. c = a @ ''='' @ t \<and> CHR ''='' \<notin> set t \<longrightarrow>
           cleanse pred = structural_stripper (substitution_pipeline t)) \<and>
        (CHR ''='' \<notin> set c \<longrightarrow> cleanse pred = structural_stripper (substitution_pipeline c))
    | Numeric c \<Rightarrow>
        cleanse pred = c \<and> cleanse pred = structural_stripper (substitution_pipeline c)
    | Raw c \<Rightarrow> cleanse pred = c \<and> c = working_text pred)"
proof (cases "locate pred")
  case (Dollar c)
  have 1: "cleanse pred = structural_stripper (substitution_pipeline (split_last ''='' c))"
    using Dollar by (simp add: cleanse_def normalize_final_answer_def)
  have 2: "\<forall>a t. c = a @ ''='' @ t \<and> CHR ''='' \<notin> set t \<longrightarrow>
           cleanse pred = structural_stripper (substitution_pipeline t)"
  proof (intro allI impI)
    fix a t assume h: "c = a @ ''='' @ t \<and> CHR ''='' \<notin> set t"
    then have "split_last ''='' c = t" using split_last_eq_after[of t a] by simp
    then show "cleanse pred = structural_stripper (substitution_pipeline t)"
      using 1 by simp
  qed
  have 3: "CHR ''='' \<notin> set c \<longrightarrow> cleanse pred = structural_stripper (substitution_pipeline c)"
    using 1 by (simp add: split_last_eq_absent)
  from 1 2 3 show ?thesis unfolding Dollar candidate.case by blast
next
  case (Numeric c)
  then have ne: "re_findall m_number (working_text pred) \<noteq> []"
    and c: "c = last (re_findall m_number (working_text pred))"
    by (auto simp: locate_unfold split: if_splits)
  from last_regex_token[OF ne]
  have "list_all (\<lambda>c. re_digit c \<or> c = CHR ''+'' \<or> c = CHR ''-'' \<or> c = CHR ''.'') c"
    unfolding c by blast
  then have "structural_stripper (substitution_pipeline c) = c" by (rule number_chars_unchanged)
  then show ?thesis using Numeric by (simp add: cleanse_def)
next
  case (Raw c)
  then have "c = working_text pred"
    by (auto simp: locate_unfold split: if_splits)
  then show ?thesis using Raw by (simp add: cleanse_def)
qed

text \<open>
  A span with a thousands separator, a span with two equals signs, and a signed decimal.
\<close>

theorem cleanse_by_branch_witness:
  "cleanse ''The answer is $3,000$'' = ''3000'' \<and> cleanse ''so $x=2=5$'' = ''5'' \<and>
   cleanse ''so we get -1.5 apples'' = ''-1.5''"
proof -
  have l1: "locate ''The answer is $3,000$'' = Dollar ''3,000''" by code_simp
  have n1: "structural_stripper (substitution_pipeline ''3,000'') = ''3000''" by code_simp
  have e1: "CHR ''='' \<notin> set ''3,000''" by simp
  have "cleanse ''The answer is $3,000$'' = structural_stripper (substitution_pipeline ''3,000'')"
    using cleanse_by_branch[of "''The answer is $3,000$''"] e1 unfolding l1 candidate.case
    by blast
  then have a: "cleanse ''The answer is $3,000$'' = ''3000''" by (simp only: n1)
  have l2: "locate ''so $x=2=5$'' = Dollar ''x=2=5''" by code_simp
  have n2: "structural_stripper (substitution_pipeline ''5'') = ''5''" by code_simp
  have e2: "''x=2=5'' = ''x=2'' @ ''='' @ ''5'' \<and> CHR ''='' \<notin> set ''5''" by simp
  have "cleanse ''so $x=2=5$'' = structural_stripper (substitution_pipeline ''5'')"
    using cleanse_by_branch[of "''so $x=2=5$''"] e2 unfolding l2 candidate.case
    by blast
  then have b: "cleanse ''so $x=2=5$'' = ''5''" by (simp only: n2)
  have l3: "locate ''so we get -1.5 apples'' = Numeric ''-1.5''" by code_simp
  have c: "cleanse ''so we get -1.5 apples'' = ''-1.5''"
    using cleanse_by_branch[of "''so we get -1.5 apples''"] unfolding l3 candidate.case
    by (rule conjunct1)
  from a b c show ?thesis by simp
qed

text \<open>
  Claim C1 as stated fails in two ways. In the fallback branch a prediction with no dollar
  sign and no digit is returned as it is, while the two pipelines would have removed the
  article. In the dollar branch the candidate \<^verbatim>\<open>x=5\<close> is cut at its equals sign before the
  two pipelines run, which on the whole candidate give \<^verbatim>\<open>x=5\<close>.
\<close>

theorem cleanse_counterexample:
  "locate ''a b'' = Raw ''a b'' \<and> cleanse ''a b'' = ''a b'' \<and>
   structural_stripper (substitution_pipeline ''a b'') = ''b'' \<and>
   locate ''$x=5$'' = Dollar ''x=5'' \<and> cleanse ''$x=5$'' = ''5'' \<and>
   structural_stripper (substitution_pipeline ''x=5'') = ''x=5''"
  by code_simp

end
